theory Spec2Isabelle
  imports Main "HOL-Library.Word"
begin

section \<open>Values, handlers and the host\<close>

text \<open>
  The message pool of \<open>globals/message.js\<close> (class \<open>cMessagePool\<close> with its
  \<open>Synchronization\<close> object) and, where it differs, the older class \<open>MessagePool\<close> of
  the second source file. The functions \<open>register\<close>, \<open>registerOnce\<close>, \<open>unregister\<close>,
  \<open>excludeLog\<close>, \<open>messageLog\<close>, \<open>onMessage\<close>, \<open>ready\<close> and the dispatch loop (\<open>recv\<close> in
  the first file, \<open>callMessage\<close> in the second) are the same text in both files and are
  embedded once, for every state that has the fields of the first class.

  The embedding is of the branch in which the platform provides \<open>postMessage\<close>, so
  that a posted string is handed to the platform and delivered later. The log sink is
  recorded, not run.

  Payload values are the JSON values the pool passes around. A number is an integer from
  \<open>- 2 ^ 53\<close> to \<open>2 ^ 53 - 1\<close>, read with \<open>sint\<close>: these a double holds exactly and
  prints in plain decimal. Fractions, numbers beyond that range and objects are left out;
  every other value a decoded payload can hold is here.
\<close>

datatype json = JNull | JBool bool | JNum "54 word" | JStr string | JArr "json list"

text \<open>
  A function is known to the pool by reference only. The pool's own bound \<open>onPing\<close>, the
  bound \<open>onPong\<close> of a synchronization object, and functions of the caller (numbered)
  are the three kinds of reference.
\<close>

datatype handler = OnPing | OnPong nat | User nat

text \<open>
  Windows: the platform's own and the others. A target of \<open>send\<close> is \<open>null\<close>, a frame
  element with its content window (which may be \<open>null\<close>), or a window. The log function is
  \<open>console.log\<close>, the empty function \<open>init\<close> puts in for a missing one, or one of the
  caller's. The exceptions are those of the decoder, of the language (a call of what is
  no function, an argument list that is no object) and of the caller's code.
\<close>

datatype window = Platform | Win nat

datatype target = Null | IFrame "window option" | Window window

datatype logfn = ConsoleLog | NoLog | LogFn nat

datatype error = SyntaxError | TypeError | Thrown

text \<open>What a function of the caller may do with the pool when it runs.\<close>

datatype cmd =
    Register string handler
  | RegisterOnce string handler
  | Unregister string "handler option"
  | Has string
  | ExcludeLog bool "string list"
  | Init string "logfn option"
  | Post "json list"
  | Send target "json list"
  | Ready "bool option"
  | Log "json option"
  | Synchronize target nat
  | Cancel nat
  | Throw

text \<open>
  The host: the JSON codec, the parent of the platform window, and the bodies of the
  caller's functions. \<open>JSON_parse\<close> gives \<open>None\<close> where the decoder throws.
\<close>

record host =
  JSON_parse :: "string \<Rightarrow> json option"
  JSON_stringify :: "json list \<Rightarrow> string"
  parent :: "window option"
  body :: "nat \<Rightarrow> json list \<Rightarrow> cmd list"

text \<open>The fields of a \<open>Synchronization\<close> object; \<open>sTarget\<close> is its \<open>oTarget\<close>.\<close>

record sync =
  sTarget :: target
  fnCallback :: nat
  iSync :: "nat option"

text \<open>
  The pool's fields, the store of handler arrays they refer to (a deleted index is
  \<open>None\<close>), the synchronization objects, the pending timers (identifier, due time,
  synchronization object), and what the pool did to its surroundings: sink calls,
  \<open>postMessage\<close> calls, \<open>bindEvent\<close> calls, handler applications and completion callbacks.
\<close>

record world =
  oMessages :: "string \<Rightarrow> nat option"
  oMessagesOnce :: "string \<Rightarrow> nat option"
  aExcludeLog :: "string list"
  sName :: string
  fnLog :: logfn
  bReady :: "bool option"
  arrays :: "nat \<Rightarrow> handler option list"
  nextRef :: nat
  syncs :: "nat \<Rightarrow> sync option"
  nextSync :: nat
  timers :: "(nat \<times> nat \<times> nat) list"
  nextTimer :: nat
  now :: nat
  logged :: "(logfn \<times> json list) list"
  posted :: "(window \<times> string) list"
  bound :: nat
  calls :: "(handler \<times> json list) list"
  fired :: "nat list"

text \<open>The class of the second source file keeps the target window in the pool.\<close>

record old_world = world +
  oTarget :: "window option"

definition evPing :: string where
  "evPing = ''evPing''"

definition evPong :: string where
  "evPong = ''evPong''"

definition defaultExcludeList :: "string list" where
  "defaultExcludeList = [evPing, evPong]"

section \<open>Array and string primitives\<close>

text \<open>
  \<open>indexOf\<close> and \<open>lastIndexOf\<close> of an array with holes (\<open>None\<close> where there is no
  index); the keys \<open>for ... in\<close> enumerates, in ascending order; the read of an index, which
  is \<open>undefined\<close> at a hole and beyond the length; and the conversion of a value to a
  string, which is how a value becomes a property key and a part of a log line.
\<close>

fun indexOf :: "handler option list \<Rightarrow> handler \<Rightarrow> nat option" where
  "indexOf [] h = None"
| "indexOf (x # xs) h =
     (if x = Some h then Some 0 else map_option Suc (indexOf xs h))"

fun lastIndexOf :: "handler option list \<Rightarrow> handler \<Rightarrow> nat option" where
  "lastIndexOf [] h = None"
| "lastIndexOf (x # xs) h =
     (case lastIndexOf xs h of
        Some i \<Rightarrow> Some (Suc i)
      | None \<Rightarrow> (if x = Some h then Some 0 else None))"

definition own_keys :: "handler option list \<Rightarrow> nat list" where
  "own_keys xs = filter (\<lambda>i. xs ! i \<noteq> None) [0..<length xs]"

definition at :: "handler option list \<Rightarrow> nat \<Rightarrow> handler option" where
  "at xs i = (if i < length xs then xs ! i else None)"

definition digit :: "nat \<Rightarrow> char" where
  "digit n = char_of (48 + n)"

fun decimal :: "nat \<Rightarrow> string" where
  "decimal n = (if n < 10 then [digit n] else decimal (n div 10) @ [digit (n mod 10)])"

declare decimal.simps [simp del]

fun join :: "string list \<Rightarrow> string" where
  "join [] = []"
| "join [s] = s"
| "join (s # t # ss) = s @ '','' @ join (t # ss)"

fun ToString :: "json \<Rightarrow> string" where
  "ToString JNull = ''null''"
| "ToString (JBool b) = (if b then ''true'' else ''false'')"
| "ToString (JNum i) =
     (if sint i < 0 then ''-'' @ decimal (nat (- sint i)) else decimal (nat (sint i)))"
| "ToString (JStr s) = s"
| "ToString (JArr xs) = join (map (\<lambda>x. if x = JNull then [] else ToString x) xs)"

definition name_string :: "json option \<Rightarrow> string" where
  "name_string v = (case v of None \<Rightarrow> ''undefined'' | Some x \<Rightarrow> ToString x)"

definition truthy :: "json \<Rightarrow> bool" where
  "truthy v = (v \<noteq> JNull \<and> v \<noteq> JBool False \<and> v \<noteq> JNum 0 \<and> v \<noteq> JStr [])"

section \<open>The pool\<close>

text \<open>
  \<open>call_log\<close> is \<open>this.fnLog.apply(null, xs)\<close> and \<open>postMessage\<close> the module's function of
  that name. \<open>blank\<close> is the state the constructor has built before it registers the ping
  handler (see \<open>cMessagePool\<close> below). An exception is the first component of a result;
  the state beside it is the one the exception leaves behind.
\<close>

definition call_log :: "json list \<Rightarrow> 'a world_scheme \<Rightarrow> 'a world_scheme" where
  "call_log xs w = w\<lparr>logged := logged w @ [(fnLog w, xs)]\<rparr>"

definition postMessage :: "window \<Rightarrow> string \<Rightarrow> 'a world_scheme \<Rightarrow> 'a world_scheme" where
  "postMessage oWindow s w = w\<lparr>posted := posted w @ [(oWindow, s)]\<rparr>"

definition blank :: world where
  "blank = \<lparr>oMessages = (\<lambda>n. None), oMessagesOnce = (\<lambda>n. None),
     aExcludeLog = defaultExcludeList, sName = ''MessagePool'', fnLog = ConsoleLog,
     bReady = Some False, arrays = (\<lambda>r. []), nextRef = 0, syncs = (\<lambda>s. None),
     nextSync = 0, timers = [], nextTimer = 1, now = 0, logged = [], posted = [],
     bound = 0, calls = [], fired = []\<rparr>"

definition init :: "string \<Rightarrow> logfn option \<Rightarrow> 'a world_scheme \<Rightarrow> 'a world_scheme" where
  "init name f w =
     w\<lparr>sName := name, fnLog := (case f of None \<Rightarrow> NoLog | Some g \<Rightarrow> g)\<rparr>"

text \<open>
  The two tables are objects created empty, so a name that is no property of the table is
  looked up in \<open>Object.prototype\<close>. There it finds a function for eleven names (given here
  with the function's \<open>length\<close>) and, for \<open>__proto__\<close>, the prototype object itself, which
  has no \<open>length\<close>. What \<open>this.oMessages[sMessage]\<close> reads is \<open>get\<close>: nothing, an array
  of the store, or such an inherited value. An inherited value has no \<open>indexOf\<close> and no
  \<open>lastIndexOf\<close>, so calling either throws; \<open>delete\<close> leaves it where it is.
\<close>

datatype member = Function nat | Prototype

definition Object_prototype :: "string \<Rightarrow> member option" where
  "Object_prototype key =
     map_of
       [(''constructor'', Function 1), (''__defineGetter__'', Function 2),
        (''__defineSetter__'', Function 2), (''hasOwnProperty'', Function 1),
        (''__lookupGetter__'', Function 1), (''__lookupSetter__'', Function 1),
        (''isPrototypeOf'', Function 1), (''propertyIsEnumerable'', Function 1),
        (''toString'', Function 0), (''valueOf'', Function 0), (''__proto__'', Prototype),
        (''toLocaleString'', Function 0)] key"

datatype slot = Array nat | Inherited member

definition get :: "(string \<Rightarrow> nat option) \<Rightarrow> string \<Rightarrow> slot option" where
  "get table key =
     (case table key of
        Some r \<Rightarrow> Some (Array r)
      | None \<Rightarrow> map_option Inherited (Object_prototype key))"

text \<open>\<open>x.length > 0\<close>, which is false where \<open>x\<close> has no \<open>length\<close>.\<close>

definition length_positive :: "'a world_scheme \<Rightarrow> slot \<Rightarrow> bool" where
  "length_positive w x =
     (case x of
        Array r \<Rightarrow> length (arrays w r) > 0
      | Inherited (Function k) \<Rightarrow> k > 0
      | Inherited Prototype \<Rightarrow> False)"

definition has :: "string \<Rightarrow> 'a world_scheme \<Rightarrow> error + bool" where
  "has sMessage w =
     (case get (oMessages w) sMessage of
        None \<Rightarrow> Inr False
      | Some x \<Rightarrow>
          if length_positive w x then Inr True
          else (case get (oMessagesOnce w) sMessage of
                  None \<Rightarrow> Inl TypeError
                | Some y \<Rightarrow> Inr (length_positive w y)))"

definition register ::
  "string \<Rightarrow> handler \<Rightarrow> 'a world_scheme \<Rightarrow> error option \<times> 'a world_scheme" where
  "register sMessage fnHandler w =
     (case get (oMessages w) sMessage of
        None \<Rightarrow>
          (None,
           w\<lparr>oMessages := (oMessages w)(sMessage \<mapsto> nextRef w),
             arrays := (arrays w)(nextRef w := [Some fnHandler]),
             nextRef := Suc (nextRef w)\<rparr>)
      | Some (Array r) \<Rightarrow>
          (None,
           if indexOf (arrays w r) fnHandler = None
           then w\<lparr>arrays := (arrays w)(r := arrays w r @ [Some fnHandler])\<rparr>
           else w)
      | Some (Inherited m) \<Rightarrow> (Some TypeError, w))"

definition registerOnce ::
  "string \<Rightarrow> handler \<Rightarrow> 'a world_scheme \<Rightarrow> error option \<times> 'a world_scheme" where
  "registerOnce sMessage fnHandler w =
     (case get (oMessagesOnce w) sMessage of
        None \<Rightarrow>
          (None,
           w\<lparr>oMessagesOnce := (oMessagesOnce w)(sMessage \<mapsto> nextRef w),
             arrays := (arrays w)(nextRef w := [Some fnHandler]),
             nextRef := Suc (nextRef w)\<rparr>)
      | Some (Array r) \<Rightarrow>
          (None,
           if indexOf (arrays w r) fnHandler = None
           then w\<lparr>arrays := (arrays w)(r := arrays w r @ [Some fnHandler])\<rparr>
           else w)
      | Some (Inherited m) \<Rightarrow> (Some TypeError, w))"

text \<open>
  \<open>unregister\<close> returns its boolean or throws; the first table is done with when the
  second is looked at, so an exception there leaves the first change in place.
\<close>

definition unregister ::
  "string \<Rightarrow> handler option \<Rightarrow> 'a world_scheme \<Rightarrow> (error + bool) \<times> 'a world_scheme" where
  "unregister sMessage fnHandler w =
     (case (case get (oMessages w) sMessage of
              None \<Rightarrow> (None, False, w)
            | Some x \<Rightarrow>
                (case fnHandler of
                   None \<Rightarrow> (None, True, w\<lparr>oMessages := (oMessages w)(sMessage := None)\<rparr>)
                 | Some h \<Rightarrow>
                     (case x of
                        Array r \<Rightarrow>
                          (case lastIndexOf (arrays w r) h of
                             None \<Rightarrow> (None, False, w)
                           | Some i \<Rightarrow>
                               (None, True,
                                w\<lparr>arrays := (arrays w)(r := (arrays w r)[i := None])\<rparr>))
                      | Inherited m \<Rightarrow> (Some TypeError, False, w)))) of
        (Some e, b1, w1) \<Rightarrow> (Inl e, w1)
      | (None, b1, w1) \<Rightarrow>
          (case get (oMessagesOnce w1) sMessage of
             None \<Rightarrow> (Inr b1, w1)
           | Some x \<Rightarrow>
               (case fnHandler of
                  None \<Rightarrow>
                    (Inr True, w1\<lparr>oMessagesOnce := (oMessagesOnce w1)(sMessage := None)\<rparr>)
                | Some h \<Rightarrow>
                    (case x of
                       Array r \<Rightarrow>
                         (case lastIndexOf (arrays w1 r) h of
                            None \<Rightarrow> (Inr b1, w1)
                          | Some i \<Rightarrow>
                              (Inr True,
                               w1\<lparr>arrays := (arrays w1)(r := (arrays w1 r)[i := None])\<rparr>))
                     | Inherited m \<Rightarrow> (Inl TypeError, w1)))))"

fun push_new :: "string list \<Rightarrow> string list \<Rightarrow> string list" where
  "push_new ex [] = ex"
| "push_new ex (a # as) = push_new (if a \<in> set ex then ex else ex @ [a]) as"

definition excludeLog :: "bool \<Rightarrow> string list \<Rightarrow> 'a world_scheme \<Rightarrow> 'a world_scheme" where
  "excludeLog bReset args w =
     w\<lparr>aExcludeLog := push_new (if bReset then defaultExcludeList else aExcludeLog w) args\<rparr>"

text \<open>
  \<open>messageLog\<close>: \<open>first_elem\<close> is \<open>aMessage[0]\<close> for whatever the decoder returned, and
  \<open>shift\<close> is a function of arrays only.
\<close>

definition first_elem :: "json \<Rightarrow> json option" where
  "first_elem aMessage =
     (case aMessage of
        JArr xs \<Rightarrow> (case xs of [] \<Rightarrow> None | x # _ \<Rightarrow> Some x)
      | JStr s \<Rightarrow> (case s of [] \<Rightarrow> None | c # _ \<Rightarrow> Some (JStr [c]))
      | _ \<Rightarrow> None)"

definition messageLog ::
  "json \<Rightarrow> string \<Rightarrow> 'a world_scheme \<Rightarrow> error option \<times> 'a world_scheme" where
  "messageLog aMessage sPrefix w =
     (if aMessage = JNull then (None, w)
      else
        (case first_elem aMessage of
           Some (JStr sMessage) \<Rightarrow>
             if truthy (JStr sMessage) \<and> sMessage \<notin> set (aExcludeLog w)
             then (case aMessage of
                     JArr xs \<Rightarrow>
                       (None,
                        call_log
                          (JStr (''['' @ sName w @ '']: '' @ sPrefix @ sMessage
                                 @ (if tl xs = [] then [] else '' :'')) # tl xs) w)
                   | _ \<Rightarrow> (Some TypeError, w))
             else (None, w)
         | _ \<Rightarrow> (None, w)))"

definition post :: "host \<Rightarrow> json list \<Rightarrow> 'a world_scheme \<Rightarrow> 'a world_scheme" where
  "post H aMessage w = postMessage Platform (JSON_stringify H aMessage) w"

definition resolve :: "host \<Rightarrow> target \<Rightarrow> window option" where
  "resolve H tgt =
     (case tgt of
        Null \<Rightarrow> parent H
      | IFrame contentWindow \<Rightarrow> contentWindow
      | Window x \<Rightarrow> Some x)"

definition send ::
  "host \<Rightarrow> target \<Rightarrow> json list \<Rightarrow> 'a world_scheme \<Rightarrow> error option \<times> 'a world_scheme" where
  "send H tgt aMessage w =
     (case resolve H tgt of
        None \<Rightarrow> messageLog (JArr aMessage) ''DROP '' w
      | Some oWindow \<Rightarrow> (None, postMessage oWindow (JSON_stringify H aMessage) w))"

definition ready :: "bool option \<Rightarrow> 'a world_scheme \<Rightarrow> 'a world_scheme" where
  "ready b w =
     (if bReady w \<noteq> b
      then (if b = Some True then w\<lparr>bReady := b, bound := Suc (bound w)\<rparr>
            else w\<lparr>bReady := b\<rparr>)
      else w)"

definition log :: "json option \<Rightarrow> 'a world_scheme \<Rightarrow> 'a world_scheme" where
  "log oMessage w =
     call_log (JStr (''['' @ sName w @ '']:'')
               # (case oMessage of None \<Rightarrow> [] | Some v \<Rightarrow> [v])) w"

section \<open>Timers and the synchronization object\<close>

text \<open>
  A timer is armed with the time it is due at. \<open>synchronize\<close> is the constructor of
  \<open>Synchronization\<close>, \<open>onSync\<close> and \<open>cancel\<close> are its methods; the object is found in
  the state by its number.
\<close>

definition setTimeout :: "nat \<Rightarrow> nat \<Rightarrow> 'a world_scheme \<Rightarrow> nat \<times> 'a world_scheme" where
  "setTimeout s delay w =
     (nextTimer w,
      w\<lparr>timers := timers w @ [(nextTimer w, now w + delay, s)],
        nextTimer := Suc (nextTimer w)\<rparr>)"

definition clearTimeout :: "nat option \<Rightarrow> 'a world_scheme \<Rightarrow> 'a world_scheme" where
  "clearTimeout t w =
     (case t of
        None \<Rightarrow> w
      | Some i \<Rightarrow> w\<lparr>timers := filter (\<lambda>e. fst e \<noteq> i) (timers w)\<rparr>)"

definition onSync :: "host \<Rightarrow> nat \<Rightarrow> 'a world_scheme \<Rightarrow> error option \<times> 'a world_scheme" where
  "onSync H s w =
     (case syncs w s of
        None \<Rightarrow> (Some TypeError, w)
      | Some this \<Rightarrow>
          (case send H (sTarget this) [JStr evPing] w of
             (Some e, w1) \<Rightarrow> (Some e, w1)
           | (None, w1) \<Rightarrow>
               (let (t, w2) = setTimeout s 1000 w1
                in (None,
                    w2\<lparr>syncs := (syncs w2)(s := map_option (\<lambda>ob. ob\<lparr>iSync := Some t\<rparr>) (syncs w2 s))\<rparr>))))"

definition synchronize ::
  "host \<Rightarrow> target \<Rightarrow> nat \<Rightarrow> 'a world_scheme \<Rightarrow> error option \<times> 'a world_scheme" where
  "synchronize H tgt cb w =
     (let s = nextSync w;
          w1 = w\<lparr>syncs := (syncs w)(s \<mapsto> \<lparr>sTarget = tgt, fnCallback = cb, iSync = None\<rparr>),
                 nextSync := Suc s\<rparr>
      in case registerOnce evPong (OnPong s) w1 of
           (Some e, w2) \<Rightarrow> (Some e, w2)
         | (None, w2) \<Rightarrow> onSync H s w2)"

definition cancel :: "nat \<Rightarrow> 'a world_scheme \<Rightarrow> error option \<times> 'a world_scheme" where
  "cancel s w =
     (case syncs w s of
        None \<Rightarrow> (None, w)
      | Some this \<Rightarrow>
          (case iSync this of
             None \<Rightarrow> (None, w)
           | Some t \<Rightarrow>
               (case unregister evPong (Some (OnPong s)) (clearTimeout (Some t) w) of
                  (Inl e, w2) \<Rightarrow> (Some e, w2)
                | (Inr b, w2) \<Rightarrow>
                    (None,
                     w2\<lparr>syncs := (syncs w2)(s := map_option (\<lambda>ob. ob\<lparr>iSync := None\<rparr>) (syncs w2 s))\<rparr>))))"

section \<open>Running the caller's functions\<close>

text \<open>
  A function of the caller is a list of calls of the pool's interface, run in order up to
  the first exception. \<open>onPing\<close> and \<open>onPong\<close> are the bodies of the two bound handlers of
  the source; \<open>onPong\<close> notes the completion callback as fired and runs it.
\<close>

fun exec :: "host \<Rightarrow> cmd \<Rightarrow> 'a world_scheme \<Rightarrow> error option \<times> 'a world_scheme" where
  "exec H (Register n h) w = register n h w"
| "exec H (RegisterOnce n h) w = registerOnce n h w"
| "exec H (Unregister n h) w =
     (case unregister n h w of (Inl e, w1) \<Rightarrow> (Some e, w1) | (Inr b, w1) \<Rightarrow> (None, w1))"
| "exec H (Has n) w = (case has n w of Inl e \<Rightarrow> (Some e, w) | Inr b \<Rightarrow> (None, w))"
| "exec H (ExcludeLog b ns) w = (None, excludeLog b ns w)"
| "exec H (Init n f) w = (None, init n f w)"
| "exec H (Post xs) w = (None, post H xs w)"
| "exec H (Send t xs) w = send H t xs w"
| "exec H (Ready b) w = (None, ready b w)"
| "exec H (Log v) w = (None, log v w)"
| "exec H (Synchronize t cb) w = synchronize H t cb w"
| "exec H (Cancel s) w = cancel s w"
| "exec H Throw w = (Some Thrown, w)"

fun run :: "host \<Rightarrow> cmd list \<Rightarrow> 'a world_scheme \<Rightarrow> error option \<times> 'a world_scheme" where
  "run H [] w = (None, w)"
| "run H (c # cs) w =
     (case exec H c w of
        (Some e, w1) \<Rightarrow> (Some e, w1)
      | (None, w1) \<Rightarrow> run H cs w1)"

definition onPing :: "host \<Rightarrow> 'a world_scheme \<Rightarrow> 'a world_scheme" where
  "onPing H w = post H [JStr evPong] w"

definition onPong :: "host \<Rightarrow> nat \<Rightarrow> 'a world_scheme \<Rightarrow> error option \<times> 'a world_scheme" where
  "onPong H s w =
     (case syncs w s of
        None \<Rightarrow> (Some TypeError, w)
      | Some this \<Rightarrow>
          (let w1 = clearTimeout (iSync this) w;
               w2 = w1\<lparr>fired := fired w1 @ [s]\<rparr>
           in run H (body H (fnCallback this) []) w2))"

text \<open>\<open>fn.apply(null, aMessage)\<close>: the application is noted, then the function runs.\<close>

definition apply_handler ::
  "host \<Rightarrow> handler \<Rightarrow> json list \<Rightarrow> 'a world_scheme \<Rightarrow> error option \<times> 'a world_scheme" where
  "apply_handler H h aMessage w =
     (let w1 = w\<lparr>calls := calls w @ [(h, aMessage)]\<rparr>
      in case h of
           OnPing \<Rightarrow> (None, onPing H w1)
         | OnPong s \<Rightarrow> onPong H s w1
         | User k \<Rightarrow> run H (body H k aMessage) w1)"

section \<open>Receiving\<close>

text \<open>
  \<open>for (let i in list) if (list.hasOwnProperty(i)) list[i | 0].apply(null, aMessage)\<close>:
  the keys are those the array has when the loop starts, in ascending order; each is
  looked up again in the array as it is when its turn comes, and an exception of a
  handler ends the loop.
\<close>

fun for_in ::
  "host \<Rightarrow> nat \<Rightarrow> nat list \<Rightarrow> json list \<Rightarrow> 'a world_scheme \<Rightarrow> error option \<times> 'a world_scheme" where
  "for_in H list [] aMessage w = (None, w)"
| "for_in H list (i # is) aMessage w =
     (case at (arrays w list) i of
        None \<Rightarrow> for_in H list is aMessage w
      | Some h \<Rightarrow>
          (case apply_handler H h aMessage w of
             (Some e, w1) \<Rightarrow> (Some e, w1)
           | (None, w1) \<Rightarrow> for_in H list is aMessage w1))"

text \<open>
  \<open>recv\<close>: \<open>arguments\<close> is the whole argument list, \<open>sMessage\<close> its first element if
  there is one, and the property key is the name converted to a string. \<open>onMessage\<close>
  spreads what the decoder returned with \<open>apply\<close>: \<open>null\<close> is no argument, an array its
  elements, and any other value is refused by \<open>apply\<close> itself.
\<close>

definition excluded :: "json option \<Rightarrow> 'a world_scheme \<Rightarrow> bool" where
  "excluded sMessage w =
     (case sMessage of Some (JStr s) \<Rightarrow> s \<in> set (aExcludeLog w) | _ \<Rightarrow> False)"

definition recv ::
  "host \<Rightarrow> json list \<Rightarrow> 'a world_scheme \<Rightarrow> error option \<times> 'a world_scheme" where
  "recv H arguments w =
     (let sMessage = (case arguments of [] \<Rightarrow> None | x # _ \<Rightarrow> Some x);
          aMessage = tl arguments;
          w1 = (if excluded sMessage w then w
                else call_log
                       (JStr (''['' @ sName w @ '']: '' @ name_string sMessage
                              @ (if aMessage = [] then [] else '' :'')) # aMessage) w);
          key = name_string sMessage;
          (e, w2) =
            (case get (oMessages w1) key of
               None \<Rightarrow> (None, w1)
             | Some (Array list) \<Rightarrow> for_in H list (own_keys (arrays w1 list)) aMessage w1
             | Some (Inherited m) \<Rightarrow> (None, w1))
      in if e \<noteq> None then (e, w2)
         else
           (case get (oMessagesOnce w2) key of
              None \<Rightarrow> (None, w2)
            | Some (Array list) \<Rightarrow>
                for_in H list (own_keys (arrays w2 list)) aMessage
                  (w2\<lparr>oMessagesOnce := (oMessagesOnce w2)(key := None)\<rparr>)
            | Some (Inherited m) \<Rightarrow> (None, w2)))"

record event =
  data :: string
  source :: "window option"

definition onMessage ::
  "host \<Rightarrow> event \<Rightarrow> 'a world_scheme \<Rightarrow> error option \<times> 'a world_scheme" where
  "onMessage H ev w =
     (case JSON_parse H (data ev) of
        None \<Rightarrow> (Some SyntaxError, w)
      | Some aMessage \<Rightarrow>
          if bReady w \<noteq> Some True then messageLog aMessage ''SKIP '' w
          else
            (case aMessage of
               JNull \<Rightarrow> recv H [] w
             | JArr xs \<Rightarrow> recv H xs w
             | _ \<Rightarrow> (Some TypeError, w)))"

definition cMessagePool :: world where
  "cMessagePool = snd (register evPing OnPing blank)"

section \<open>The host's moves\<close>

text \<open>
  Between two runs of the pool's code the host may run code of the caller, hand a
  message event to \<open>onMessage\<close>, or let a pending timer expire, which calls the bound
  \<open>onSync\<close> of its synchronization object at the timer's due time. An exception that
  leaves such a run ends it; the next run starts from the state it left.
\<close>

datatype move = Call cmd | Message event | Expire nat

definition expire :: "host \<Rightarrow> nat \<Rightarrow> 'a world_scheme \<Rightarrow> error option \<times> 'a world_scheme" where
  "expire H t w =
     (case filter (\<lambda>e. fst e = t) (timers w) of
        [] \<Rightarrow> (None, w)
      | (i, due, s) # _ \<Rightarrow>
          onSync H s (w\<lparr>timers := filter (\<lambda>e. fst e \<noteq> t) (timers w),
                        now := max (now w) due\<rparr>))"

fun step :: "host \<Rightarrow> move \<Rightarrow> 'a world_scheme \<Rightarrow> error option \<times> 'a world_scheme" where
  "step H (Call c) w = exec H c w"
| "step H (Message ev) w = onMessage H ev w"
| "step H (Expire t) w = expire H t w"

fun moves :: "host \<Rightarrow> move list \<Rightarrow> 'a world_scheme \<Rightarrow> 'a world_scheme" where
  "moves H [] w = w"
| "moves H (m # ms) w = moves H ms (snd (step H m w))"

section \<open>The class of the second source file\<close>

text \<open>
  The constructor, \<open>target\<close>, \<open>send\<close> and \<open>synchronize\<close> of the older class. Its
  \<open>synchronize\<close> keeps the timer in a local variable and registers an anonymous function
  for the pong; they are kept here in a \<open>sync\<close> record and as \<open>OnPong\<close>. The function ends
  when the first ping is sent and the timer armed.
\<close>

definition MessagePool :: "string option \<Rightarrow> logfn option \<Rightarrow> old_world" where
  "MessagePool name f =
     \<lparr>oMessages = (\<lambda>n. None), oMessagesOnce = (\<lambda>n. None),
      aExcludeLog = defaultExcludeList,
      sName = (case name of None \<Rightarrow> ''Unknown'' | Some n \<Rightarrow> if n = [] then ''Unknown'' else n),
      fnLog = (case f of None \<Rightarrow> NoLog | Some g \<Rightarrow> g),
      bReady = Some False, arrays = (\<lambda>r. []), nextRef = 0, syncs = (\<lambda>s. None),
      nextSync = 0, timers = [], nextTimer = 1, now = 0, logged = [], posted = [],
      bound = 0, calls = [], fired = [], oTarget = None\<rparr>"

definition old_target :: "target \<Rightarrow> old_world \<Rightarrow> old_world" where
  "old_target tgt w =
     (case tgt of
        Null \<Rightarrow> w\<lparr>oTarget := None\<rparr>
      | IFrame contentWindow \<Rightarrow> w\<lparr>oTarget := contentWindow\<rparr>
      | Window x \<Rightarrow> w\<lparr>oTarget := Some x\<rparr>)"

definition old_send :: "host \<Rightarrow> json list \<Rightarrow> old_world \<Rightarrow> error option \<times> old_world" where
  "old_send H aMessage w =
     (case oTarget w of
        None \<Rightarrow> messageLog (JArr aMessage) ''DROP '' w
      | Some x \<Rightarrow> (None, postMessage x (JSON_stringify H aMessage) w))"

definition old_synchronize :: "host \<Rightarrow> nat \<Rightarrow> old_world \<Rightarrow> error option \<times> old_world" where
  "old_synchronize H cb w =
     (let s = nextSync w;
          w1 = w\<lparr>syncs := (syncs w)(s \<mapsto> \<lparr>sTarget = Null, fnCallback = cb, iSync = None\<rparr>),
                 nextSync := Suc s\<rparr>
      in case registerOnce evPong (OnPong s) w1 of
           (Some e, w2) \<Rightarrow> (Some e, w2)
         | (None, w2) \<Rightarrow>
             (case register evPing OnPing w2 of
                (Some e, w3) \<Rightarrow> (Some e, w3)
              | (None, w3) \<Rightarrow>
                  (case old_send H [JStr evPing] w3 of
                     (Some e, w4) \<Rightarrow> (Some e, w4)
                   | (None, w4) \<Rightarrow>
                       (let (t, w5) = setTimeout s 1000 w4
                        in (None,
                            w5\<lparr>syncs := (syncs w5)(s := map_option (\<lambda>ob. ob\<lparr>iSync := Some t\<rparr>) (syncs w5 s))\<rparr>)))))"

section \<open>A host for running examples\<close>

text \<open>
  A serializer for the values above, a decoder that knows the serialized forms of a few
  sample messages and rejects every other string, and a host made of the two, whose
  parent window is window \<open>k\<close> and whose functions do nothing.
\<close>

fun quote :: "string \<Rightarrow> string" where
  "quote [] = []"
| "quote (c # cs) =
     (if c = CHR 0x22 \<or> c = CHR 0x5C then CHR 0x5C # c # quote cs else c # quote cs)"

fun stringify :: "json \<Rightarrow> string" where
  "stringify JNull = ''null''"
| "stringify (JBool b) = (if b then ''true'' else ''false'')"
| "stringify (JNum i) =
     (if sint i < 0 then ''-'' @ decimal (nat (- sint i)) else decimal (nat (sint i)))"
| "stringify (JStr s) = CHR 0x22 # quote s @ [CHR 0x22]"
| "stringify (JArr xs) = ''['' @ join (map stringify xs) @ '']''"

definition wire :: "json list \<Rightarrow> string" where
  "wire xs = stringify (JArr xs)"

definition samples :: "json list" where
  "samples =
     [JArr [JStr evPing], JArr [JStr evPong], JArr [JStr ''greet'', JStr ''world''],
      JArr [JStr ''greet''], JNull, JStr ''greet'', JNum 5, JArr [JStr ''constructor'']]"

definition parse_samples :: "string \<Rightarrow> json option" where
  "parse_samples s = map_of (map (\<lambda>v. (stringify v, v)) samples) s"

definition browser :: "nat \<Rightarrow> host" where
  "browser k =
     \<lparr>JSON_parse = parse_samples, JSON_stringify = wire, parent = Some (Win k),
      body = (\<lambda>f args. [])\<rparr>"

section \<open>Notions used in the statements\<close>

text \<open>
  \<open>enrol\<close> and \<open>enrolOnce\<close> are the states \<open>register\<close> and \<open>registerOnce\<close> leave when
  the name finds no inherited value, that is, when they return.
\<close>

definition enrol :: "string \<Rightarrow> handler \<Rightarrow> 'a world_scheme \<Rightarrow> 'a world_scheme" where
  "enrol n h w =
     (case oMessages w n of
        None \<Rightarrow>
          w\<lparr>oMessages := (oMessages w)(n \<mapsto> nextRef w),
            arrays := (arrays w)(nextRef w := [Some h]),
            nextRef := Suc (nextRef w)\<rparr>
      | Some r \<Rightarrow>
          if indexOf (arrays w r) h = None
          then w\<lparr>arrays := (arrays w)(r := arrays w r @ [Some h])\<rparr>
          else w)"

definition enrolOnce :: "string \<Rightarrow> handler \<Rightarrow> 'a world_scheme \<Rightarrow> 'a world_scheme" where
  "enrolOnce n h w =
     (case oMessagesOnce w n of
        None \<Rightarrow>
          w\<lparr>oMessagesOnce := (oMessagesOnce w)(n \<mapsto> nextRef w),
            arrays := (arrays w)(nextRef w := [Some h]),
            nextRef := Suc (nextRef w)\<rparr>
      | Some r \<Rightarrow>
          if indexOf (arrays w r) h = None
          then w\<lparr>arrays := (arrays w)(r := arrays w r @ [Some h])\<rparr>
          else w)"

text \<open>
  A command is quiet when it leaves the handler tables alone and cannot throw; a handler is
  inert when its body is quiet. \<open>live\<close> lists the handlers an array holds, and
  \<open>registered\<close> those a table holds for a name.
\<close>

fun quiet :: "cmd \<Rightarrow> bool" where
  "quiet (Post xs) = True"
| "quiet (Send t xs) = True"
| "quiet (Log v) = True"
| "quiet (Ready b) = True"
| "quiet (ExcludeLog b ns) = True"
| "quiet (Init n f) = True"
| "quiet c = False"

definition inert :: "host \<Rightarrow> 'a world_scheme \<Rightarrow> json list \<Rightarrow> handler \<Rightarrow> bool" where
  "inert H w a h =
     (case h of
        OnPing \<Rightarrow> True
      | User k \<Rightarrow> list_all quiet (body H k a)
      | OnPong s \<Rightarrow>
          (case syncs w s of
             None \<Rightarrow> False
           | Some this \<Rightarrow> list_all quiet (body H (fnCallback this) [])))"

fun live :: "handler option list \<Rightarrow> handler list" where
  "live [] = []"
| "live (None # xs) = live xs"
| "live (Some h # xs) = h # live xs"

definition registered :: "(string \<Rightarrow> nat option) \<Rightarrow> 'a world_scheme \<Rightarrow> string \<Rightarrow> handler list" where
  "registered table w key = (case table key of None \<Rightarrow> [] | Some r \<Rightarrow> live (arrays w r))"

text \<open>
  \<open>kept\<close> relates two states with the same tables, arrays and synchronization objects;
  \<open>picks\<close> are the handlers found at a list of keys, and \<open>key_of\<close> is the property key
  \<open>recv\<close> looks up for an argument list.
\<close>

definition kept :: "'a world_scheme \<Rightarrow> 'a world_scheme \<Rightarrow> bool" where
  "kept w w' \<longleftrightarrow>
     oMessages w' = oMessages w \<and> oMessagesOnce w' = oMessagesOnce w \<and>
     arrays w' = arrays w \<and> syncs w' = syncs w \<and> nextRef w' = nextRef w"

definition picks :: "handler option list \<Rightarrow> nat list \<Rightarrow> handler list" where
  "picks xs ks = List.map_filter (at xs) ks"

definition key_of :: "json list \<Rightarrow> string" where
  "key_of arguments = name_string (case arguments of [] \<Rightarrow> None | x # _ \<Rightarrow> Some x)"

text \<open>Every array a name of the persistent table refers to has an element or a hole.\<close>

definition nonempty :: "'a world_scheme \<Rightarrow> bool" where
  "nonempty w \<longleftrightarrow> (\<forall>n r. oMessages w n = Some r \<longrightarrow> arrays w r \<noteq> [])"

text \<open>The line the pool hands to the log sink, and a pool with two handlers for running examples.\<close>

definition entry :: "string \<Rightarrow> string \<Rightarrow> string \<Rightarrow> json list \<Rightarrow> json list" where
  "entry name sPrefix sMessage aMessage =
     JStr (''['' @ name @ '']: '' @ sPrefix @ sMessage @ (if aMessage = [] then [] else '' :''))
       # aMessage"


text \<open>The pong the built-in ping handler posts, and the state after the sink call of \<open>recv\<close>.\<close>

definition pong :: "host \<Rightarrow> window \<times> string" where
  "pong H = (Platform, JSON_stringify H [JStr evPong])"

definition announce :: "json list \<Rightarrow> 'a world_scheme \<Rightarrow> 'a world_scheme" where
  "announce arguments w =
     (let sMessage = (case arguments of [] \<Rightarrow> None | x # _ \<Rightarrow> Some x)
      in if excluded sMessage w then w
         else call_log
                (JStr (''['' @ sName w @ '']: '' @ name_string sMessage
                       @ (if tl arguments = [] then [] else '' :'')) # tl arguments) w)"


text \<open>
  For the synchronization scenario: the ping a session posts to the window its target
  resolves to; the moves that post nothing of their own (events of the host, and calls
  that only touch readiness and logging); the state of a session that has sent its
  \<open>k + 1\<close>-th ping and waits for timer \<open>k + 1\<close>; and the state after its cancellation.
\<close>

definition ping :: "host \<Rightarrow> window \<Rightarrow> window \<times> string" where
  "ping H x = (x, JSON_stringify H [JStr evPing])"

fun silent :: "move \<Rightarrow> bool" where
  "silent (Message ev) = True"
| "silent (Expire t) = True"
| "silent (Call (Ready b)) = True"
| "silent (Call (Log v)) = True"
| "silent (Call (Init n f)) = True"
| "silent (Call (ExcludeLog b ns)) = True"
| "silent (Call c) = False"

definition settled :: "host \<Rightarrow> (window \<times> string) list \<Rightarrow> 'a world_scheme \<Rightarrow> bool" where
  "settled H P w \<longleftrightarrow>
     timers w = [] \<and> fired w = [] \<and> (\<exists>k. posted w = P @ replicate k (pong H)) \<and>
     (\<forall>key. set (registered (oMessages w) w key) \<subseteq> {OnPing}) \<and>
     (\<forall>key. registered (oMessagesOnce w) w key = [])"

definition started :: "host \<Rightarrow> target \<Rightarrow> nat \<Rightarrow> bool option \<Rightarrow> world" where
  "started H tgt cb b = snd (synchronize H tgt cb (ready b cMessagePool))"

definition pending :: "host \<Rightarrow> target \<Rightarrow> nat \<Rightarrow> window \<Rightarrow> nat \<Rightarrow> 'a world_scheme \<Rightarrow> bool" where
  "pending H tgt cb x k w \<longleftrightarrow>
     timers w = [(Suc k, 1000 * Suc k, 0)] \<and> nextTimer w = Suc (Suc k) \<and> now w = 1000 * k \<and>
     posted w = replicate (Suc k) (ping H x) \<and> fired w = [] \<and>
     syncs w 0 = Some \<lparr>sTarget = tgt, fnCallback = cb, iSync = Some (Suc k)\<rparr> \<and>
     oMessages w = [evPing \<mapsto> 0] \<and> oMessagesOnce w = [evPong \<mapsto> 1] \<and>
     arrays w 0 = [Some OnPing] \<and> arrays w (Suc 0) = [Some (OnPong 0)]"

text \<open>
  For the once-handlers. A command avoids \<open>h\<close> when it does not register \<open>h\<close>; the host never
  registers \<open>h\<close> when no function of the caller holds such a command, and a move is avoiding
  when it is no call of one. A handler is tied to the one slot of the store that holds it,
  in an array no persistent entry refers to and no once entry but that of \<open>n\<close>; the slot is
  spent when no once entry refers to the array any more. \<open>applications\<close> counts how often the
  pool has applied \<open>h\<close>.
\<close>

fun avoids :: "handler \<Rightarrow> cmd \<Rightarrow> bool" where
  "avoids h (Register m g) = (g \<noteq> h)"
| "avoids h (RegisterOnce m g) = (g \<noteq> h)"
| "avoids h (Synchronize t cb) = (case h of OnPong s \<Rightarrow> False | _ \<Rightarrow> True)"
| "avoids h c = True"

definition tied :: "handler \<Rightarrow> string \<Rightarrow> nat \<Rightarrow> nat \<Rightarrow> 'a world_scheme \<Rightarrow> bool" where
  "tied h n r i w \<longleftrightarrow>
     r < nextRef w \<and> (\<forall>m. oMessages w m \<noteq> Some r) \<and>
     (\<forall>m. oMessagesOnce w m = Some r \<longrightarrow> m = n) \<and>
     (\<forall>p j. at (arrays w p) j = Some h \<longrightarrow> p = r \<and> j = i)"

definition spent :: "nat \<Rightarrow> 'a world_scheme \<Rightarrow> bool" where
  "spent r w \<longleftrightarrow> (\<forall>m. oMessagesOnce w m \<noteq> Some r)"

definition applications :: "handler \<Rightarrow> 'a world_scheme \<Rightarrow> nat" where
  "applications h w = length (filter (\<lambda>c. fst c = h) (calls w))"

text \<open>
  \<open>bounded\<close>: one run of the pool's code keeps the handler tied and applies it at most
  \<open>d\<close> times; \<open>once_only\<close>: it applies the handler at most \<open>d\<close> times, not at all
  once the slot is spent, and the slot is spent after an application; \<open>within\<close>: at most
  one application more than \<open>c\<close> so far, and none more than \<open>c\<close> before the slot is spent.
\<close>

definition bounded ::
  "handler \<Rightarrow> string \<Rightarrow> nat \<Rightarrow> nat \<Rightarrow> nat \<Rightarrow> 'a world_scheme \<Rightarrow> 'a world_scheme \<Rightarrow> bool" where
  "bounded h n r i d w w' \<longleftrightarrow>
     tied h n r i w' \<and> (spent r w \<longrightarrow> spent r w') \<and>
     applications h w \<le> applications h w' \<and> applications h w' \<le> applications h w + d"

definition never_registers :: "host \<Rightarrow> handler \<Rightarrow> bool" where
  "never_registers H h \<longleftrightarrow> (\<forall>f a. list_all (avoids h) (body H f a))"

definition once_only :: "handler \<Rightarrow> nat \<Rightarrow> nat \<Rightarrow> 'a world_scheme \<Rightarrow> 'a world_scheme \<Rightarrow> bool" where
  "once_only h r d w w' \<longleftrightarrow>
     applications h w \<le> applications h w' \<and>
     applications h w' \<le> applications h w + (if spent r w then 0 else d) \<and>
     (spent r w \<longrightarrow> spent r w') \<and>
     (applications h w' \<noteq> applications h w \<longrightarrow> spent r w')"

text \<open>
  A handler is absent when no array of the store holds it; a run is idle for \<open>h\<close> when it
  leaves \<open>h\<close> absent and has not applied it.
\<close>

definition absent :: "handler \<Rightarrow> 'a world_scheme \<Rightarrow> bool" where
  "absent h w \<longleftrightarrow> (\<forall>p. Some h \<notin> set (arrays w p))"

definition idle :: "handler \<Rightarrow> 'a world_scheme \<Rightarrow> 'a world_scheme \<Rightarrow> bool" where
  "idle h w w' \<longleftrightarrow> absent h w' \<and> applications h w' = applications h w"

text \<open>The two loops of \<open>recv\<close>, one after the other.\<close>

definition persistent_phase ::
  "host \<Rightarrow> json list \<Rightarrow> 'a world_scheme \<Rightarrow> error option \<times> 'a world_scheme" where
  "persistent_phase H xs w =
     (case oMessages (announce xs w) (key_of xs) of
        None \<Rightarrow> (None, announce xs w)
      | Some list \<Rightarrow>
          for_in H list (own_keys (arrays (announce xs w) list)) (tl xs) (announce xs w))"

definition once_phase ::
  "host \<Rightarrow> json list \<Rightarrow> 'a world_scheme \<Rightarrow> error option \<times> 'a world_scheme" where
  "once_phase H xs w =
     (case oMessagesOnce w (key_of xs) of
        None \<Rightarrow> (None, w)
      | Some list \<Rightarrow>
          for_in H list (own_keys (arrays w list)) (tl xs)
            (w\<lparr>oMessagesOnce := (oMessagesOnce w)(key_of xs := None)\<rparr>))"

text \<open>A message names \<open>n\<close> when \<open>n\<close> is the key \<open>recv\<close> would look up for it.\<close>

fun avoiding :: "handler \<Rightarrow> move \<Rightarrow> bool" where
  "avoiding h (Call c) = avoids h c"
| "avoiding h m = True"

fun names :: "host \<Rightarrow> string \<Rightarrow> move \<Rightarrow> bool" where
  "names H n (Message ev) =
     (case JSON_parse H (data ev) of
        Some JNull \<Rightarrow> key_of [] = n
      | Some (JArr xs) \<Rightarrow> key_of xs = n
      | _ \<Rightarrow> False)"
| "names H n m = False"

text \<open>
  The tables of a well-formed state refer to arrays that were allocated, no two once
  entries share an array, no array is in both tables, and no entry stands under a name
  that \<open>Object.prototype\<close> defines.
\<close>

definition well_formed :: "'a world_scheme \<Rightarrow> bool" where
  "well_formed w \<longleftrightarrow>
     (\<forall>m p. oMessages w m = Some p \<longrightarrow> p < nextRef w) \<and>
     (\<forall>m p. oMessagesOnce w m = Some p \<longrightarrow> p < nextRef w) \<and>
     (\<forall>m m' p. oMessagesOnce w m = Some p \<and> oMessagesOnce w m' = Some p \<longrightarrow> m = m') \<and>
     (\<forall>m m' p. oMessages w m = Some p \<longrightarrow> oMessagesOnce w m' \<noteq> Some p) \<and>
     (\<forall>m p. oMessages w m = Some p \<or> oMessagesOnce w m = Some p \<longrightarrow> Object_prototype m = None)"

definition within :: "handler \<Rightarrow> string \<Rightarrow> nat \<Rightarrow> nat \<Rightarrow> nat \<Rightarrow> 'a world_scheme \<Rightarrow> bool" where
  "within h n r i c w \<longleftrightarrow>
     tied h n r i w \<and> applications h w \<le> c + (if spent r w then 1 else 0)"

text \<open>
  A command is deferring for \<open>n\<close> when it is quiet or \<open>registerOnce(n, g)\<close>; \<open>queued\<close> lists the
  handlers a body registers so, \<open>code\<close> is the body a handler runs, and a handler defers when
  its body is deferring.
\<close>

fun deferring :: "string \<Rightarrow> cmd \<Rightarrow> bool" where
  "deferring n (RegisterOnce m g) = (m = n)"
| "deferring n c = quiet c"

fun queued :: "cmd list \<Rightarrow> handler list" where
  "queued [] = []"
| "queued (RegisterOnce m g # cs) = g # queued cs"
| "queued (c # cs) = queued cs"

definition code :: "host \<Rightarrow> 'a world_scheme \<Rightarrow> json list \<Rightarrow> handler \<Rightarrow> cmd list" where
  "code H w a g =
     (case g of
        OnPing \<Rightarrow> []
      | User k \<Rightarrow> body H k a
      | OnPong s \<Rightarrow> (case syncs w s of None \<Rightarrow> [] | Some sy \<Rightarrow> body H (fnCallback sy) []))"

definition defers :: "host \<Rightarrow> 'a world_scheme \<Rightarrow> string \<Rightarrow> json list \<Rightarrow> handler \<Rightarrow> bool" where
  "defers H w n a g \<longleftrightarrow>
     list_all (deferring n) (code H w a g) \<and> (case g of OnPong s \<Rightarrow> syncs w s \<noteq> None | _ \<Rightarrow> True)"

text \<open>
  \<open>queues\<close>: a run leaves every array alone that was allocated before it and is not the
  once-array of \<open>n\<close>, and adds the handlers \<open>gs\<close> to those registered once for \<open>n\<close>.
\<close>

definition queues :: "string \<Rightarrow> handler list \<Rightarrow> 'a world_scheme \<Rightarrow> 'a world_scheme \<Rightarrow> bool" where
  "queues n gs w w' \<longleftrightarrow>
     (\<forall>l. l < nextRef w \<and> oMessagesOnce w n \<noteq> Some l \<longrightarrow>
        arrays w' l = arrays w l \<and> oMessagesOnce w' n \<noteq> Some l) \<and>
     nextRef w \<le> nextRef w' \<and> oMessages w' = oMessages w \<and> syncs w' = syncs w \<and>
     set (registered (oMessagesOnce w') w' n) = set (registered (oMessagesOnce w) w n) \<union> set gs"

text \<open>
  A host whose function 1 queues function 2 as a once-handler, and a pool that awaits one
  message for function 1.
\<close>

definition queueing :: host where
  "queueing =
     \<lparr>JSON_parse = parse_samples, JSON_stringify = wire, parent = None,
      body = (\<lambda>f args. if f = 1 then [RegisterOnce ''greet'' (User 2)] else [])\<rparr>"

definition awaiting :: world where
  "awaiting = snd (registerOnce ''greet'' (User 1) cMessagePool)"

text \<open>
  A tidy state is well-formed and none of its arrays holds a handler twice; the exclusion
  list of a seeded state holds the two names it is created with.
\<close>

definition tidy :: "'a world_scheme \<Rightarrow> bool" where
  "tidy w \<longleftrightarrow> well_formed w \<and> (\<forall>r. distinct (live (arrays w r)))"

definition seeded :: "'a world_scheme \<Rightarrow> bool" where
  "seeded w \<longleftrightarrow> set defaultExcludeList \<subseteq> set (aExcludeLog w)"

section \<open>Names the prototype defines\<close>

lemma Object_prototype_events [simp]:
  "Object_prototype evPing = None" "Object_prototype evPong = None"
  "Object_prototype ''greet'' = None"
  by (simp_all add: Object_prototype_def evPing_def evPong_def)

lemma get_plain: "Object_prototype n = None \<Longrightarrow> get t n = map_option Array (t n)"
  by (simp add: get_def split: option.splits)

lemma get_own: "t n = Some r \<Longrightarrow> get t n = Some (Array r)"
  by (simp add: get_def)

lemma get_inherited:
  "t n = None \<Longrightarrow> Object_prototype n = Some m \<Longrightarrow> get t n = Some (Inherited m)"
  by (simp add: get_def)

lemma get_cases:
  "(case get t n of None \<Rightarrow> a | Some (Array l) \<Rightarrow> f l | Some (Inherited m) \<Rightarrow> a) =
   (case t n of None \<Rightarrow> a | Some l \<Rightarrow> f l)"
  by (simp add: get_def split: option.splits)

lemma register_enrol:
  "Object_prototype n = None \<or> oMessages w n \<noteq> None \<Longrightarrow> register n h w = (None, enrol n h w)"
  by (auto simp: register_def enrol_def get_def split: option.splits)

lemma registerOnce_enrolOnce:
  "Object_prototype n = None \<or> oMessagesOnce w n \<noteq> None \<Longrightarrow>
   registerOnce n h w = (None, enrolOnce n h w)"
  by (auto simp: registerOnce_def enrolOnce_def get_def split: option.splits)

lemma register_throws:
  "Object_prototype n \<noteq> None \<Longrightarrow> oMessages w n = None \<Longrightarrow> register n h w = (Some TypeError, w)"
  by (auto simp: register_def get_def)

lemma registerOnce_throws:
  "Object_prototype n \<noteq> None \<Longrightarrow> oMessagesOnce w n = None \<Longrightarrow>
   registerOnce n h w = (Some TypeError, w)"
  by (auto simp: registerOnce_def get_def)

lemma register_result:
  "register n h w = (None, enrol n h w) \<or> register n h w = (Some TypeError, w)"
  using register_enrol [of n w h] register_throws [of n w h] by blast

lemma registerOnce_result:
  "registerOnce n h w = (None, enrolOnce n h w) \<or> registerOnce n h w = (Some TypeError, w)"
  using registerOnce_enrolOnce [of n w h] registerOnce_throws [of n w h] by blast

lemma cMessagePool_enrol: "cMessagePool = enrol evPing OnPing blank"
  by (simp add: cMessagePool_def register_enrol)

text \<open>
  On a pool that has just been constructed: \<open>has\<close> answers with the \<open>length\<close> of what the
  name inherits, and \<open>unregister\<close> throws when given a handler and returns \<open>true\<close> when
  given none.
\<close>

lemma has_inherited:
  "has ''constructor'' cMessagePool = Inr True" "has ''hasOwnProperty'' cMessagePool = Inr True"
  "has ''toString'' cMessagePool = Inr False" "has ''__proto__'' cMessagePool = Inr False"
  "has ''greet'' cMessagePool = Inr False" "has evPing cMessagePool = Inr True"
  by (simp_all add: has_def get_def length_positive_def Object_prototype_def cMessagePool_enrol
      enrol_def blank_def evPing_def)

lemma unregister_inherited:
  "unregister ''constructor'' (Some h) cMessagePool = (Inl TypeError, cMessagePool)"
  "fst (unregister ''constructor'' None cMessagePool) = Inr True"
  "snd (unregister ''constructor'' None cMessagePool) = cMessagePool"
  by (simp_all add: unregister_def get_def Object_prototype_def cMessagePool_enrol
      enrol_def blank_def evPing_def)



lemma awaiting_enrol: "awaiting = enrolOnce ''greet'' (User 1) cMessagePool"
  by (simp add: awaiting_def registerOnce_enrolOnce)

lemma synchronize_enrol:
  "synchronize H tgt cb w =
     (let s = nextSync w;
          w1 = w\<lparr>syncs := (syncs w)(s \<mapsto> \<lparr>sTarget = tgt, fnCallback = cb, iSync = None\<rparr>),
                 nextSync := Suc s\<rparr>;
          w2 = enrolOnce evPong (OnPong s) w1
      in onSync H s w2)"
  by (simp add: synchronize_def Let_def registerOnce_enrolOnce)

lemma old_synchronize_enrol:
  "old_synchronize H cb w =
     (let s = nextSync w;
          w1 = w\<lparr>syncs := (syncs w)(s \<mapsto> \<lparr>sTarget = Null, fnCallback = cb, iSync = None\<rparr>),
                 nextSync := Suc s\<rparr>;
          w2 = enrolOnce evPong (OnPong s) w1;
          w3 = enrol evPing OnPing w2
      in case old_send H [JStr evPing] w3 of
           (Some e, w4) \<Rightarrow> (Some e, w4)
         | (None, w4) \<Rightarrow>
             (let (t, w5) = setTimeout s 1000 w4
              in (None,
                  w5\<lparr>syncs := (syncs w5)(s := map_option (\<lambda>ob. ob\<lparr>iSync := Some t\<rparr>) (syncs w5 s))\<rparr>)))"
  by (simp add: old_synchronize_def Let_def registerOnce_enrolOnce register_enrol)

lemma unregister_returns:
  "Object_prototype n = None \<Longrightarrow> unregister n g w \<noteq> (Inl e, w1)"
  by (auto simp: unregister_def get_plain split: option.splits)

lemma cancel_fst: "fst (cancel s w) = None"
  by (auto simp: cancel_def unregister_returns split: option.splits prod.splits sum.splits)

lemma cancel_snd:
  "snd (cancel s w) =
     (case syncs w s of
        None \<Rightarrow> w
      | Some this \<Rightarrow>
          (case iSync this of
             None \<Rightarrow> w
           | Some t \<Rightarrow>
               (let w1 = clearTimeout (Some t) w;
                    w2 = snd (unregister evPong (Some (OnPong s)) w1)
                in w2\<lparr>syncs := (syncs w2)(s := map_option (\<lambda>ob. ob\<lparr>iSync := None\<rparr>) (syncs w2 s))\<rparr>)))"
  by (auto simp: cancel_def Let_def unregister_returns split: option.splits prod.splits sum.splits)

lemma exec_Unregister [simp]:
  "snd (case unregister n g w of (Inl e, w1) \<Rightarrow> (Some e, w1) | (Inr b, w1) \<Rightarrow> (None, w1))
     = snd (unregister n g w)"
  by (simp split: prod.splits sum.splits)

lemma recv_unfold:
  "recv H xs w =
     (case (case oMessages (announce xs w) (key_of xs) of
               None \<Rightarrow> (None, announce xs w)
             | Some list \<Rightarrow>
                 for_in H list (own_keys (arrays (announce xs w) list)) (tl xs) (announce xs w)) of
        (e, w2) \<Rightarrow>
          if e \<noteq> None then (e, w2)
          else
            (case oMessagesOnce w2 (key_of xs) of
               None \<Rightarrow> (None, w2)
             | Some list \<Rightarrow>
                 for_in H list (own_keys (arrays w2 list)) (tl xs)
                   (w2\<lparr>oMessagesOnce := (oMessagesOnce w2)(key_of xs := None)\<rparr>)))"
  unfolding recv_def announce_def key_of_def Let_def get_cases by (rule refl)

section \<open>Dispatch to inert handlers\<close>

lemma kept_refl [simp]: "kept w w"
  by (simp add: kept_def)

lemma kept_trans: "kept w w1 \<Longrightarrow> kept w1 w2 \<Longrightarrow> kept w w2"
  by (simp add: kept_def)

lemma messageLog_array:
  "messageLog (JArr xs) p w = (None, w) \<or> (\<exists>e. messageLog (JArr xs) p w = (None, call_log e w))"
  by (auto simp: messageLog_def first_elem_def split: list.splits json.splits option.splits)

lemma kept_call_log [simp]: "kept w (call_log e w)"
  by (simp add: kept_def call_log_def)

lemma calls_call_log [simp]: "calls (call_log e w) = calls w"
  by (simp add: call_log_def)

lemma send_quiet:
  "fst (send H t xs w) = None \<and> kept w (snd (send H t xs w)) \<and> calls (snd (send H t xs w)) = calls w"
  using messageLog_array [of xs "''DROP ''" w]
  by (auto simp: send_def postMessage_def kept_def call_log_def split: option.splits)

lemma exec_quiet:
  "quiet c \<Longrightarrow> fst (exec H c w) = None \<and> kept w (snd (exec H c w)) \<and> calls (snd (exec H c w)) = calls w"
  by (cases c) (simp_all add: send_quiet, simp_all add: post_def postMessage_def log_def ready_def excludeLog_def init_def kept_def call_log_def)

lemma run_quiet:
  "list_all quiet cs \<Longrightarrow> fst (run H cs w) = None \<and> kept w (snd (run H cs w)) \<and> calls (snd (run H cs w)) = calls w"
proof (induction cs arbitrary: w)
  case Nil
  then show ?case by simp
next
  case (Cons c cs)
  obtain e w1 where ex: "exec H c w = (e, w1)" by (cases "exec H c w")
  from Cons.prems have q: "quiet c" and qs: "list_all quiet cs" by simp_all
  from exec_quiet [OF q, of H w] ex have e: "e = None" and k: "kept w w1" and c: "calls w1 = calls w"
    by simp_all
  from Cons.IH [OF qs, of w1] k c ex e show ?case
    by (auto intro: kept_trans)
qed

lemma apply_handler_inert:
  assumes "inert H w a h"
  shows "fst (apply_handler H h a w) = None \<and> kept w (snd (apply_handler H h a w)) \<and>
         calls (snd (apply_handler H h a w)) = calls w @ [(h, a)]"
proof (cases h)
  case OnPing
  then show ?thesis
    by (simp add: apply_handler_def onPing_def post_def postMessage_def kept_def)
next
  case (OnPong s)
  with assms obtain sy where s: "syncs w s = Some sy"
    and q: "list_all quiet (body H (fnCallback sy) [])"
    by (auto simp: inert_def split: option.splits)
  let ?w2 = "(clearTimeout (iSync sy) (w\<lparr>calls := calls w @ [(h, a)]\<rparr>))\<lparr>fired := fired (clearTimeout (iSync sy) (w\<lparr>calls := calls w @ [(h, a)]\<rparr>)) @ [s]\<rparr>"
  have k: "kept w ?w2" "calls ?w2 = calls w @ [(h, a)]"
    by (simp_all add: kept_def clearTimeout_def split: option.splits)
  have "apply_handler H h a w = run H (body H (fnCallback sy) []) ?w2"
    using OnPong s by (simp add: apply_handler_def onPong_def Let_def)
  with run_quiet [OF q, of H ?w2] k show ?thesis
    by (auto intro: kept_trans)
next
  case (User k)
  with assms have q: "list_all quiet (body H k a)" by (simp add: inert_def)
  let ?w1 = "w\<lparr>calls := calls w @ [(h, a)]\<rparr>"
  have "apply_handler H h a w = run H (body H k a) ?w1"
    using User by (simp add: apply_handler_def)
  with run_quiet [OF q, of H ?w1] show ?thesis
    by (auto simp: kept_def)
qed

lemma inert_syncs: "syncs w1 = syncs w \<Longrightarrow> inert H w1 a h = inert H w a h"
  by (cases h) (simp_all add: inert_def)

lemma inert_kept: "kept w w1 \<Longrightarrow> inert H w1 a h = inert H w a h"
  by (rule inert_syncs) (simp add: kept_def)

lemma picks_simps [simp]:
  "picks xs [] = []"
  "picks xs (i # ks) = (case at xs i of None \<Rightarrow> picks xs ks | Some h \<Rightarrow> h # picks xs ks)"
  by (simp_all add: picks_def List.map_filter_simps split: option.splits)

lemma for_in_inert:
  assumes "\<forall>h \<in> set (picks (arrays w r) ks). inert H w a h"
  shows "fst (for_in H r ks a w) = None \<and> kept w (snd (for_in H r ks a w)) \<and>
         calls (snd (for_in H r ks a w)) = calls w @ map (\<lambda>h. (h, a)) (picks (arrays w r) ks)"
  using assms
proof (induction ks arbitrary: w)
  case Nil
  then show ?case by simp
next
  case (Cons i ks)
  show ?case
  proof (cases "at (arrays w r) i")
    case None
    with Cons show ?thesis by simp
  next
    case (Some h)
    obtain e w1 where ap: "apply_handler H h a w = (e, w1)" by (cases "apply_handler H h a w")
    from Cons.prems Some have ih: "inert H w a h"
      and rest: "\<forall>g \<in> set (picks (arrays w r) ks). inert H w a g" by simp_all
    from apply_handler_inert [OF ih] ap
    have e: "e = None" and k: "kept w w1" and c: "calls w1 = calls w @ [(h, a)]" by simp_all
    from k have ar: "arrays w1 = arrays w" by (simp add: kept_def)
    from rest ar k have "\<forall>g \<in> set (picks (arrays w1 r) ks). inert H w1 a g"
      by (simp add: inert_kept)
    from Cons.IH [OF this] Some ap e k c ar show ?thesis
      by (auto intro: kept_trans)
  qed
qed

lemma own_keys_snoc:
  "own_keys (xs @ [x]) = own_keys xs @ (if x = None then [] else [length xs])"
  by (auto simp: own_keys_def nth_append intro: filter_cong)

lemma live_snoc: "live (xs @ [x]) = live xs @ (case x of None \<Rightarrow> [] | Some h \<Rightarrow> [h])"
  by (induction xs rule: live.induct) (auto split: option.splits)

lemma picks_append: "picks xs (ks @ ls) = picks xs ks @ picks xs ls"
  by (induction ks) (auto split: option.splits)

lemma picks_snoc_array: "\<forall>i \<in> set ks. i < length xs \<Longrightarrow> picks (xs @ [x]) ks = picks xs ks"
  by (induction ks) (auto simp: at_def nth_append split: option.splits)

lemma own_keys_bound: "i \<in> set (own_keys xs) \<Longrightarrow> i < length xs"
  by (simp add: own_keys_def)

lemma picks_own_keys: "picks xs (own_keys xs) = live xs"
proof (induction xs rule: rev_induct)
  case Nil
  then show ?case by (simp add: own_keys_def)
next
  case (snoc x xs)
  have "picks (xs @ [x]) (own_keys xs) = picks xs (own_keys xs)"
    by (rule picks_snoc_array) (simp add: own_keys_bound)
  with snoc show ?case
    by (cases x) (simp_all add: own_keys_snoc live_snoc picks_append at_def)
qed

lemma recv_inert:
  assumes "\<forall>h \<in> set (registered (oMessages w) w (key_of xs) @ registered (oMessagesOnce w) w (key_of xs)).
             inert H w (tl xs) h"
  shows "fst (recv H xs w) = None \<and>
         calls (snd (recv H xs w)) =
           calls w @ map (\<lambda>h. (h, tl xs))
             (registered (oMessages w) w (key_of xs) @ registered (oMessagesOnce w) w (key_of xs)) \<and>
         oMessages (snd (recv H xs w)) = oMessages w \<and>
         oMessagesOnce (snd (recv H xs w)) = (oMessagesOnce w)(key_of xs := None) \<and>
         arrays (snd (recv H xs w)) = arrays w"
proof -
  define sMessage where "sMessage = (case xs of [] \<Rightarrow> None | x # _ \<Rightarrow> Some x)"
  define w1 where "w1 = (if excluded sMessage w then w
                else call_log
                       (JStr (''['' @ sName w @ '']: '' @ name_string sMessage
                              @ (if tl xs = [] then [] else '' :'')) # tl xs) w)"
  define key where "key = key_of xs"
  have k1: "kept w w1" and c1: "calls w1 = calls w" by (simp_all add: w1_def)
  define p where "p = (case oMessages w1 key of
               None \<Rightarrow> (None, w1)
             | Some list \<Rightarrow> for_in H list (own_keys (arrays w1 list)) (tl xs) w1)"
  have P: "fst p = None \<and> kept w1 (snd p) \<and>
           calls (snd p) = calls w1 @ map (\<lambda>h. (h, tl xs)) (registered (oMessages w) w key)"
  proof (cases "oMessages w1 key")
    case None
    with k1 show ?thesis by (simp add: p_def registered_def kept_def)
  next
    case (Some r)
    with k1 have reg: "registered (oMessages w) w key = picks (arrays w1 r) (own_keys (arrays w1 r))"
      by (simp add: registered_def kept_def picks_own_keys)
    with assms k1 have "\<forall>h \<in> set (picks (arrays w1 r) (own_keys (arrays w1 r))). inert H w1 (tl xs) h"
      by (simp add: key_def inert_kept)
    from for_in_inert [OF this] Some reg show ?thesis by (simp add: p_def)
  qed
  define w2 where "w2 = snd p"
  from P have k2: "kept w w2" and c2: "calls w2 = calls w @ map (\<lambda>h. (h, tl xs)) (registered (oMessages w) w key)"
    using k1 c1 by (auto simp: w2_def intro: kept_trans)
  define w3 where "w3 = w2\<lparr>oMessagesOnce := (oMessagesOnce w2)(key := None)\<rparr>"
  define q where "q = (case oMessagesOnce w2 key of
              None \<Rightarrow> (None, w2)
            | Some list \<Rightarrow> for_in H list (own_keys (arrays w2 list)) (tl xs)
                  (w2\<lparr>oMessagesOnce := (oMessagesOnce w2)(key := None)\<rparr>))"
  have "recv H xs w = (case p of (e, w2) \<Rightarrow> if e \<noteq> None then (e, w2)
         else
           (case oMessagesOnce w2 key of
              None \<Rightarrow> (None, w2)
            | Some list \<Rightarrow>
                for_in H list (own_keys (arrays w2 list)) (tl xs)
                  (w2\<lparr>oMessagesOnce := (oMessagesOnce w2)(key := None)\<rparr>)))"
    unfolding recv_unfold p_def w1_def sMessage_def key_def announce_def key_of_def Let_def
    by (rule refl)
  moreover from P have "p = (None, w2)"
    by (cases p) (simp add: w2_def)
  ultimately have r: "recv H xs w = q"
    by (simp add: q_def)
  have Q: "fst q = None \<and>
         calls (snd q) = calls w2 @ map (\<lambda>h. (h, tl xs)) (registered (oMessagesOnce w) w key) \<and>
         oMessages (snd q) = oMessages w \<and>
         oMessagesOnce (snd q) = (oMessagesOnce w)(key := None) \<and>
         arrays (snd q) = arrays w"
  proof (cases "oMessagesOnce w2 key")
    case None
    with k2 have "(oMessagesOnce w)(key := None) = oMessagesOnce w" by (auto simp: kept_def)
    with None k2 show ?thesis by (simp add: q_def registered_def kept_def)
  next
    case (Some r)
    have a3: "arrays w3 = arrays w" "syncs w3 = syncs w" "calls w3 = calls w2"
      "oMessages w3 = oMessages w" "oMessagesOnce w3 = (oMessagesOnce w)(key := None)"
      using k2 by (simp_all add: w3_def kept_def)
    from Some k2 have reg: "registered (oMessagesOnce w) w key = picks (arrays w3 r) (own_keys (arrays w2 r))"
      by (simp add: registered_def kept_def picks_own_keys a3)
    with assms a3 have "\<forall>h \<in> set (picks (arrays w3 r) (own_keys (arrays w2 r))). inert H w3 (tl xs) h"
      by (simp add: key_def inert_syncs [of w3 w])
    moreover from Some have "q = for_in H r (own_keys (arrays w2 r)) (tl xs) w3"
      by (simp add: q_def w3_def)
    ultimately show ?thesis
      using for_in_inert [of w3 r "own_keys (arrays w2 r)" H "tl xs"] reg a3 by (simp add: kept_def)
  qed
  with r c2 show ?thesis by (simp add: key_def)
qed

section \<open>Malformed payloads\<close>

lemma parse_samples_brace: "parse_samples ''{'' = None"
  by code_simp

text \<open>
  C5 (as amended). For every inbound raw string the decoder rejects, \<open>onMessage\<close> lets the
  decoder's exception leave to its caller: nothing is caught and nothing is handed to the
  log sink; no handler is applied and the state of the pool is the one before the call.
\<close>

theorem onMessage_malformed:
  "JSON_parse H (data ev) = None \<Longrightarrow> onMessage H ev w = (Some SyntaxError, w)"
  by (simp add: onMessage_def)

theorem onMessage_malformed_witness:
  "JSON_parse (browser 1) (data \<lparr>data = ''{'', source = Some (Win 1)\<rparr>) = None \<and>
   onMessage (browser 1) \<lparr>data = ''{'', source = Some (Win 1)\<rparr> (ready (Some True) cMessagePool)
     = (Some SyntaxError, ready (Some True) cMessagePool)"
  using onMessage_malformed [of "browser 1" "\<lparr>data = ''{'', source = Some (Win 1)\<rparr>"
      "ready (Some True) cMessagePool"]
  by (simp add: browser_def parse_samples_brace)

text \<open>
  The claim as first stated has the failure caught and reported through the log sink. On
  the raw string \<open>{\<close> the exception leaves \<open>onMessage\<close> and the sink has not been called.
\<close>

theorem onMessage_malformed_counterexample:
  "fst (onMessage (browser 1) \<lparr>data = ''{'', source = Some (Win 1)\<rparr> (ready (Some True) cMessagePool))
     = Some SyntaxError \<and>
   logged (snd (onMessage (browser 1) \<lparr>data = ''{'', source = Some (Win 1)\<rparr>
     (ready (Some True) cMessagePool))) = []"
  by (simp add: onMessage_def browser_def parse_samples_brace ready_def cMessagePool_enrol
      enrol_def blank_def)

section \<open>Binding to the receive event\<close>

text \<open>
  C2. The claim is that no toggling of the readiness flag binds the pool a second time.
  After \<open>ready(true)\<close>, \<open>ready(false)\<close>, \<open>ready(true)\<close> the pool of either class has
  called \<open>bindEvent\<close> twice.
\<close>

theorem ready_toggle_binds_again:
  "bound (ready (Some True) (ready (Some False) (ready (Some True) cMessagePool))) = 2 \<and>
   bound (ready (Some True) (ready (Some False) (ready (Some True) (MessagePool None None)))) = 2"
  by (simp add: ready_def cMessagePool_enrol enrol_def blank_def MessagePool_def)

section \<open>What \<open>has\<close> returns\<close>

lemma nonempty_kept: "kept w w1 \<Longrightarrow> nonempty w \<Longrightarrow> nonempty w1"
  by (simp add: nonempty_def kept_def)

lemma nonempty_enrol: "nonempty w \<Longrightarrow> nonempty (enrol n h w)"
  by (auto simp: nonempty_def enrol_def split: option.splits)

lemma nonempty_enrolOnce: "nonempty w \<Longrightarrow> nonempty (enrolOnce n h w)"
  by (auto simp: nonempty_def enrolOnce_def split: option.splits)

lemma nonempty_register: "nonempty w \<Longrightarrow> nonempty (snd (register n h w))"
  using register_result [of n h w] by (auto simp: nonempty_enrol)

lemma nonempty_registerOnce: "nonempty w \<Longrightarrow> nonempty (snd (registerOnce n h w))"
  using registerOnce_result [of n h w] by (auto simp: nonempty_enrolOnce)

lemma nonempty_unregister: "nonempty w \<Longrightarrow> nonempty (snd (unregister n h w))"
  by (auto simp: nonempty_def unregister_def split: option.splits slot.splits)

lemma nonempty_fields:
  "oMessages w1 = oMessages w \<Longrightarrow> arrays w1 = arrays w \<Longrightarrow> nonempty w \<Longrightarrow> nonempty w1"
  by (simp add: nonempty_def)

lemma send_result:
  obtains w1 where "send H t xs w = (None, w1)" "kept w w1" "calls w1 = calls w"
  using send_quiet [of H t xs w] by (cases "send H t xs w") auto

lemma nonempty_onSync: "nonempty w \<Longrightarrow> nonempty (snd (onSync H s w))"
proof (cases "syncs w s")
  case None
  assume "nonempty w"
  with None show ?thesis by (simp add: onSync_def)
next
  case (Some sy)
  assume n: "nonempty w"
  obtain w1 where w1: "send H (sTarget sy) [JStr evPing] w = (None, w1)" "kept w w1"
    by (rule send_result)
  from w1(2) n have "nonempty w1" by (rule nonempty_kept)
  with Some w1(1) show ?thesis
    by (simp add: onSync_def setTimeout_def nonempty_def)
qed

lemma nonempty_synchronize: "nonempty w \<Longrightarrow> nonempty (snd (synchronize H t cb w))"
proof -
  assume n: "nonempty w"
  let ?w1 = "w\<lparr>syncs := (syncs w)(nextSync w \<mapsto> \<lparr>sTarget = t, fnCallback = cb, iSync = None\<rparr>),
                 nextSync := Suc (nextSync w)\<rparr>"
  from n have "nonempty ?w1" by (simp add: nonempty_def)
  then have "nonempty (enrolOnce evPong (OnPong (nextSync w)) ?w1)" by (rule nonempty_enrolOnce)
  then show ?thesis by (simp add: synchronize_enrol Let_def nonempty_onSync)
qed

lemma nonempty_cancel: "nonempty w \<Longrightarrow> nonempty (snd (cancel s w))"
proof -
  assume n: "nonempty w"
  show ?thesis
  proof (cases "syncs w s")
    case None
    with n show ?thesis by (simp add: cancel_snd)
  next
    case (Some sy)
    show ?thesis
    proof (cases "iSync sy")
      case None
      with Some n show ?thesis by (simp add: cancel_snd)
    next
      case (Some t)
      from n have "nonempty (clearTimeout (Some t) w)" by (simp add: nonempty_def clearTimeout_def)
      then have "nonempty (snd (unregister evPong (Some (OnPong s)) (clearTimeout (Some t) w)))"
        by (rule nonempty_unregister)
      then show ?thesis using \<open>syncs w s = Some sy\<close> Some
        by (simp add: cancel_snd Let_def nonempty_def)
    qed
  qed
qed

lemma nonempty_exec: "nonempty w \<Longrightarrow> nonempty (snd (exec H c w))"
proof (cases "quiet c")
  case True
  assume "nonempty w"
  with exec_quiet [OF True, of H w] show ?thesis by (auto intro: nonempty_kept)
next
  case False
  assume "nonempty w"
  with False show ?thesis
    by (cases c)
      (simp_all add: nonempty_register nonempty_registerOnce nonempty_unregister
        nonempty_synchronize nonempty_cancel split: sum.splits)
qed

lemma nonempty_run: "nonempty w \<Longrightarrow> nonempty (snd (run H cs w))"
proof (induction cs arbitrary: w)
  case Nil
  then show ?case by simp
next
  case (Cons c cs)
  from Cons.prems have "nonempty (snd (exec H c w))" by (rule nonempty_exec)
  with Cons.IH [of "snd (exec H c w)"] show ?case
    by (cases "exec H c w") (auto split: option.splits)
qed

lemma nonempty_apply_handler: "nonempty w \<Longrightarrow> nonempty (snd (apply_handler H h a w))"
proof -
  assume n: "nonempty w"
  then have n1: "nonempty (w\<lparr>calls := calls w @ [(h, a)]\<rparr>)" by (simp add: nonempty_def)
  show ?thesis
  proof (cases h)
    case OnPing
    with n1 show ?thesis
      by (simp add: apply_handler_def onPing_def post_def postMessage_def nonempty_def)
  next
    case (OnPong s)
    show ?thesis
    proof (cases "syncs w s")
      case None
      with OnPong n1 show ?thesis by (simp add: apply_handler_def onPong_def)
    next
      case (Some sy)
      let ?w1 = "clearTimeout (iSync sy) (w\<lparr>calls := calls w @ [(h, a)]\<rparr>)"
      from n have "nonempty (?w1\<lparr>fired := fired ?w1 @ [s]\<rparr>)"
        by (simp add: nonempty_def clearTimeout_def split: option.splits)
      from nonempty_run [OF this] OnPong Some show ?thesis
        by (simp add: apply_handler_def onPong_def Let_def)
    qed
  next
    case (User k)
    with nonempty_run [OF n1] show ?thesis by (simp add: apply_handler_def)
  qed
qed

lemma nonempty_for_in: "nonempty w \<Longrightarrow> nonempty (snd (for_in H r ks a w))"
proof (induction ks arbitrary: w)
  case Nil
  then show ?case by simp
next
  case (Cons i ks)
  show ?case
  proof (cases "at (arrays w r) i")
    case None
    with Cons show ?thesis by simp
  next
    case (Some h)
    from Cons.prems have "nonempty (snd (apply_handler H h a w))" by (rule nonempty_apply_handler)
    with Cons.IH [of "snd (apply_handler H h a w)"] Some show ?thesis
      by (cases "apply_handler H h a w") (auto split: option.splits)
  qed
qed

lemma nonempty_recv: "nonempty w \<Longrightarrow> nonempty (snd (recv H xs w))"
proof -
  assume n: "nonempty w"
  define sMessage where "sMessage = (case xs of [] \<Rightarrow> None | x # _ \<Rightarrow> Some x)"
  define w1 where "w1 = (if excluded sMessage w then w
                else call_log
                       (JStr (''['' @ sName w @ '']: '' @ name_string sMessage
                              @ (if tl xs = [] then [] else '' :'')) # tl xs) w)"
  define key where "key = name_string sMessage"
  define p where "p = (case oMessages w1 key of
               None \<Rightarrow> (None, w1)
             | Some list \<Rightarrow> for_in H list (own_keys (arrays w1 list)) (tl xs) w1)"
  have r: "recv H xs w = (case p of (e, w2) \<Rightarrow> if e \<noteq> None then (e, w2)
         else
           (case oMessagesOnce w2 key of
              None \<Rightarrow> (None, w2)
            | Some list \<Rightarrow>
                for_in H list (own_keys (arrays w2 list)) (tl xs)
                  (w2\<lparr>oMessagesOnce := (oMessagesOnce w2)(key := None)\<rparr>)))"
    unfolding recv_unfold p_def w1_def sMessage_def key_def announce_def key_of_def Let_def
    by (rule refl)
  from n have n1: "nonempty w1" by (auto simp: w1_def intro: nonempty_kept [OF kept_call_log])
  then have n2: "nonempty (snd p)"
    by (cases "oMessages w1 key") (simp_all add: p_def nonempty_for_in)
  then have "nonempty ((snd p)\<lparr>oMessagesOnce := (oMessagesOnce (snd p))(key := None)\<rparr>)"
    by (simp add: nonempty_def)
  then have "\<And>r ks. nonempty (snd (for_in H r ks (tl xs)
      ((snd p)\<lparr>oMessagesOnce := (oMessagesOnce (snd p))(key := None)\<rparr>)))"
    by (rule nonempty_for_in)
  with n2 show ?thesis
    by (cases p) (auto simp: r split: option.splits)
qed

lemma nonempty_messageLog: "nonempty w \<Longrightarrow> nonempty (snd (messageLog v p w))"
  by (auto simp: messageLog_def nonempty_def call_log_def split: option.splits json.splits)

lemma nonempty_onMessage: "nonempty w \<Longrightarrow> nonempty (snd (onMessage H ev w))"
  by (auto simp: onMessage_def nonempty_recv nonempty_messageLog split: option.splits json.splits)

lemma nonempty_expire: "nonempty w \<Longrightarrow> nonempty (snd (expire H t w))"
proof -
  assume n: "nonempty w"
  then have "\<And>d. nonempty (w\<lparr>timers := filter (\<lambda>e. fst e \<noteq> t) (timers w), now := d\<rparr>)"
    by (simp add: nonempty_def)
  then show ?thesis using n
    by (auto simp: expire_def nonempty_onSync split: list.splits)
qed

lemma nonempty_step: "nonempty w \<Longrightarrow> nonempty (snd (step H m w))"
  by (cases m) (simp_all add: nonempty_exec nonempty_onMessage nonempty_expire)

lemma nonempty_moves: "nonempty w \<Longrightarrow> nonempty (moves H ms w)"
  by (induction ms arbitrary: w) (simp_all add: nonempty_step)

lemma nonempty_cMessagePool: "nonempty cMessagePool"
  by (simp add: nonempty_def cMessagePool_enrol enrol_def blank_def)

lemma has_nonempty: "nonempty w \<Longrightarrow> \<exists>b. has n w = Inr b"
  by (auto simp: has_def nonempty_def get_def length_positive_def split: option.splits)

text \<open>
  C9 (as amended). In every state the pool can reach from its construction, by calls of
  the caller, message events and timer expiries, and so in one where \<open>register(n, h)\<close> was
  called and \<open>registerOnce\<close> never was, \<open>has(n)\<close> returns a boolean and does not throw.
\<close>

theorem has_never_throws: "\<exists>b. has n (moves H ms cMessagePool) = Inr b"
  by (rule has_nonempty) (rule nonempty_moves [OF nonempty_cMessagePool])

text \<open>
  The claim as first stated has \<open>has(n)\<close> throw once \<open>register(n, h)\<close> was called and
  \<open>registerOnce\<close> never was. In that state it returns \<open>true\<close>.
\<close>

theorem has_counterexample:
  "has ''greet'' (snd (register ''greet'' (User 1) cMessagePool)) = Inr True"
  by (simp add: has_def register_enrol get_plain length_positive_def enrol_def
      cMessagePool_enrol blank_def evPing_def)

section \<open>Logging of skipped and dropped messages\<close>

lemma messageLog_wire:
  "messageLog (JArr (JStr n # args)) p w =
     (None, if n \<noteq> [] \<and> n \<notin> set (aExcludeLog w)
            then call_log (entry (sName w) p n args) w else w)"
  by (simp add: messageLog_def first_elem_def truthy_def entry_def)

lemma messageLog_only_logs:
  "snd (messageLog v p w) = w\<lparr>logged := logged (snd (messageLog v p w))\<rparr>"
  by (auto simp: messageLog_def call_log_def split: option.splits json.splits)

lemma key_of_name [simp]: "key_of (JStr n # args) = n"
  by (simp add: key_of_def name_string_def)


lemma parse_samples_ping: "parse_samples (wire [JStr evPing]) = Some (JArr [JStr evPing])"
  by code_simp


lemma registered_ready [simp]:
  "registered (oMessages (ready b w)) (ready b w) n = registered (oMessages w) w n"
  "registered (oMessagesOnce (ready b w)) (ready b w) n = registered (oMessagesOnce w) w n"
  by (simp_all add: registered_def ready_def split: option.splits)

section \<open>Sending without a destination\<close>

text \<open>
  C6 (as amended). For every send whose target resolves to no destination window, \<open>send\<close>
  does not throw and does not call \<open>postMessage\<close>; nothing of the state changes but,
  at most, the record of sink calls. The would-be message \<open>[n, ...args]\<close> is handed to the
  sink with prefix \<open>DROP\<close> when \<open>n\<close> is a non-empty name that is not on the exclusion
  list, and is not logged otherwise. The same holds for \<open>send\<close> of the second class when
  its target is unset.
\<close>

theorem send_unresolved:
  "(resolve H tgt = None \<longrightarrow>
     fst (send H tgt xs w) = None \<and>
     snd (send H tgt xs w) = w\<lparr>logged := logged (snd (send H tgt xs w))\<rparr> \<and>
     send H tgt (JStr n # args) w =
       (None, if n \<noteq> [] \<and> n \<notin> set (aExcludeLog w)
              then call_log (entry (sName w) ''DROP '' n args) w else w)) \<and>
   (oTarget v = None \<longrightarrow>
     fst (old_send H xs v) = None \<and>
     snd (old_send H xs v) = v\<lparr>logged := logged (snd (old_send H xs v))\<rparr> \<and>
     old_send H (JStr n # args) v =
       (None, if n \<noteq> [] \<and> n \<notin> set (aExcludeLog v)
              then call_log (entry (sName v) ''DROP '' n args) v else v))"
  using messageLog_array [of xs "''DROP ''" w] messageLog_only_logs [of "JArr xs" "''DROP ''" w]
    messageLog_array [of xs "''DROP ''" v] messageLog_only_logs [of "JArr xs" "''DROP ''" v]
  by (auto simp: send_def old_send_def messageLog_wire)

theorem send_unresolved_witness:
  "resolve (browser 1) (IFrame None) = None \<and>
   oTarget (MessagePool None (Some ConsoleLog)) = None \<and>
   send (browser 1) (IFrame None) [JStr ''greet'', JStr ''world''] cMessagePool =
     (None, cMessagePool\<lparr>logged := [(ConsoleLog, [JStr ''[MessagePool]: DROP greet :'', JStr ''world''])]\<rparr>) \<and>
   old_send (browser 1) [JStr ''greet'', JStr ''world''] (MessagePool None (Some ConsoleLog)) =
     (None, (MessagePool None (Some ConsoleLog))
        \<lparr>logged := [(ConsoleLog, [JStr ''[Unknown]: DROP greet :'', JStr ''world''])]\<rparr>)"
  using send_unresolved [where H = "browser 1" and tgt = "IFrame None" and w = cMessagePool
      and n = "''greet''" and args = "[JStr ''world'']" and v = "MessagePool None (Some ConsoleLog)"
      and xs = "[JStr ''greet'', JStr ''world'']"]
  by (simp add: resolve_def MessagePool_def cMessagePool_enrol enrol_def blank_def
      defaultExcludeList_def evPing_def evPong_def entry_def call_log_def)

text \<open>
  The claim as first stated has every such message logged with prefix \<open>DROP\<close>. A ping sent
  to a frame without content window is dropped without any sink call.
\<close>

theorem send_unresolved_counterexample:
  "resolve (browser 1) (IFrame None) = None \<and>
   send (browser 1) (IFrame None) [JStr evPing] cMessagePool = (None, cMessagePool)"
  by (simp add: resolve_def send_def messageLog_wire cMessagePool_enrol enrol_def blank_def
      defaultExcludeList_def)

section \<open>The readiness gate\<close>




section \<open>The built-in ping handler\<close>

lemma apply_OnPing:
  "apply_handler H OnPing a w = (None, w\<lparr>calls := calls w @ [(OnPing, a)], posted := posted w @ [pong H]\<rparr>)"
  by (simp add: apply_handler_def onPing_def post_def postMessage_def pong_def)

lemma for_in_pings:
  "set (picks (arrays w r) ks) \<subseteq> {OnPing} \<Longrightarrow>
   for_in H r ks a w =
     (None, w\<lparr>calls := calls w @ map (\<lambda>h. (h, a)) (picks (arrays w r) ks),
              posted := posted w @ replicate (length (picks (arrays w r) ks)) (pong H)\<rparr>)"
proof (induction ks arbitrary: w)
  case Nil
  then show ?case by simp
next
  case (Cons i ks)
  show ?case
  proof (cases "at (arrays w r) i")
    case None
    with Cons show ?thesis by simp
  next
    case (Some h)
    with Cons.prems have h: "h = OnPing" and rest: "set (picks (arrays w r) ks) \<subseteq> {OnPing}"
      by simp_all
    let ?w1 = "w\<lparr>calls := calls w @ [(OnPing, a)], posted := posted w @ [pong H]\<rparr>"
    from rest have "set (picks (arrays ?w1 r) ks) \<subseteq> {OnPing}" by simp
    from Cons.IH [OF this] Some h show ?thesis
      by (simp add: apply_OnPing replicate_app_Cons_same)
  qed
qed

lemma announce_fields [simp]:
  "oMessages (announce xs w) = oMessages w" "oMessagesOnce (announce xs w) = oMessagesOnce w"
  "arrays (announce xs w) = arrays w" "calls (announce xs w) = calls w"
  "posted (announce xs w) = posted w" "syncs (announce xs w) = syncs w"
  by (simp_all add: announce_def call_log_def Let_def)

lemma recv_pings:
  assumes "set (registered (oMessages w) w (key_of xs)) \<subseteq> {OnPing}"
    and "set (registered (oMessagesOnce w) w (key_of xs)) \<subseteq> {OnPing}"
  shows "recv H xs w =
     (None, (announce xs w)
        \<lparr>calls := calls w @ map (\<lambda>h. (h, tl xs))
            (registered (oMessages w) w (key_of xs) @ registered (oMessagesOnce w) w (key_of xs)),
         posted := posted w @ replicate
            (length (registered (oMessages w) w (key_of xs) @ registered (oMessagesOnce w) w (key_of xs)))
            (pong H),
         oMessagesOnce := (oMessagesOnce w)(key_of xs := None)\<rparr>)"
proof -
  let ?a = "announce xs w"
  let ?k = "key_of xs"
  let ?P = "registered (oMessages w) w ?k"
  let ?O = "registered (oMessagesOnce w) w ?k"
  let ?w2 = "?a\<lparr>calls := calls w @ map (\<lambda>h. (h, tl xs)) ?P,
                posted := posted w @ replicate (length ?P) (pong H)\<rparr>"
  have p: "(case oMessages ?a ?k of
               None \<Rightarrow> (None, ?a)
             | Some list \<Rightarrow> for_in H list (own_keys (arrays ?a list)) (tl xs) ?a) = (None, ?w2)"
  proof (cases "oMessages w ?k")
    case None
    then show ?thesis by (simp add: registered_def)
  next
    case (Some r)
    with assms(1) have "set (picks (arrays ?a r) (own_keys (arrays ?a r))) \<subseteq> {OnPing}"
      by (simp add: registered_def picks_own_keys)
    from for_in_pings [OF this, of H "tl xs"] Some show ?thesis
      by (simp add: registered_def picks_own_keys)
  qed
  show ?thesis
  proof (cases "oMessagesOnce w ?k")
    case None
    then have "(oMessagesOnce w)(?k := None) = oMessagesOnce w" by auto
    with None p show ?thesis
      by (simp add: recv_unfold registered_def)
  next
    case (Some r)
    let ?w3 = "?w2\<lparr>oMessagesOnce := (oMessagesOnce ?w2)(?k := None)\<rparr>"
    from Some assms(2) have "set (picks (arrays ?w3 r) (own_keys (arrays ?w2 r))) \<subseteq> {OnPing}"
      by (simp add: registered_def picks_own_keys)
    from for_in_pings [OF this, of H "tl xs"] Some p show ?thesis
      by (simp add: recv_unfold registered_def picks_own_keys replicate_add)
  qed
qed

text \<open>
  C8 (as amended). The pool of the first source file registers, at construction time, a
  persistent handler for \<open>evPing\<close>; the pool of the second source file registers it in
  \<open>synchronize\<close> and has none before. Dispatching \<open>evPing\<close> on a ready pool whose
  handlers for it are that one posts exactly one \<open>evPong\<close> message, to the pool's own
  window, whatever the source of the event.
\<close>

theorem ping_answered:
  "registered (oMessages cMessagePool) cMessagePool evPing = [OnPing] \<and>
   (bReady w = Some True \<and> JSON_parse H (data ev) = Some (JArr (JStr evPing # args)) \<and>
    registered (oMessages w) w evPing = [OnPing] \<and> registered (oMessagesOnce w) w evPing = [] \<longrightarrow>
      fst (onMessage H ev w) = None \<and>
      calls (snd (onMessage H ev w)) = calls w @ [(OnPing, args)] \<and>
      posted (snd (onMessage H ev w)) = posted w @ [(Platform, JSON_stringify H [JStr evPong])]) \<and>
   registered (oMessages (MessagePool name f)) (MessagePool name f) evPing = [] \<and>
   registered (oMessages (snd (old_synchronize H cb (MessagePool name f))))
     (snd (old_synchronize H cb (MessagePool name f))) evPing = [OnPing]"
proof (intro conjI impI)
  show "registered (oMessages cMessagePool) cMessagePool evPing = [OnPing]"
    by (simp add: registered_def cMessagePool_enrol enrol_def blank_def)
  show "registered (oMessages (MessagePool name f)) (MessagePool name f) evPing = []"
    by (simp add: registered_def MessagePool_def)
  show "registered (oMessages (snd (old_synchronize H cb (MessagePool name f))))
     (snd (old_synchronize H cb (MessagePool name f))) evPing = [OnPing]"
    by (simp add: registered_def MessagePool_def old_synchronize_enrol old_send_def messageLog_wire
        enrolOnce_def enrol_def setTimeout_def defaultExcludeList_def evPing_def evPong_def)
next
  assume a: "bReady w = Some True \<and> JSON_parse H (data ev) = Some (JArr (JStr evPing # args)) \<and>
    registered (oMessages w) w evPing = [OnPing] \<and> registered (oMessagesOnce w) w evPing = []"
  then have r: "onMessage H ev w = recv H (JStr evPing # args) w"
    by (simp add: onMessage_def)
  from a have "set (registered (oMessages w) w (key_of (JStr evPing # args))) \<subseteq> {OnPing}"
    and "set (registered (oMessagesOnce w) w (key_of (JStr evPing # args))) \<subseteq> {OnPing}"
    by simp_all
  from recv_pings [OF this, of H] a r
  show "fst (onMessage H ev w) = None"
    and "calls (snd (onMessage H ev w)) = calls w @ [(OnPing, args)]"
    and "posted (snd (onMessage H ev w)) = posted w @ [(Platform, JSON_stringify H [JStr evPong])]"
    by (simp_all add: pong_def)
qed

theorem ping_answered_witness:
  "bReady (ready (Some True) cMessagePool) = Some True \<and>
   JSON_parse (browser 1) (data \<lparr>data = wire [JStr evPing], source = Some (Win 7)\<rparr>)
     = Some (JArr [JStr evPing]) \<and>
   registered (oMessages (ready (Some True) cMessagePool)) (ready (Some True) cMessagePool) evPing
     = [OnPing] \<and>
   registered (oMessagesOnce (ready (Some True) cMessagePool)) (ready (Some True) cMessagePool) evPing
     = [] \<and>
   calls (snd (onMessage (browser 1) \<lparr>data = wire [JStr evPing], source = Some (Win 7)\<rparr>
     (ready (Some True) cMessagePool))) = [(OnPing, [])] \<and>
   posted (snd (onMessage (browser 1) \<lparr>data = wire [JStr evPing], source = Some (Win 7)\<rparr>
     (ready (Some True) cMessagePool))) = [(Platform, wire [JStr evPong])]"
proof -
  let ?w = "ready (Some True) cMessagePool"
  let ?ev = "\<lparr>data = wire [JStr evPing], source = Some (Win 7)\<rparr>"
  have y: "bReady ?w = Some True"
    by (simp add: ready_def cMessagePool_enrol enrol_def blank_def)
  have p: "JSON_parse (browser 1) (data ?ev) = Some (JArr [JStr evPing])"
    by (simp add: browser_def parse_samples_ping)
  have t: "registered (oMessages ?w) ?w evPing = [OnPing]" "registered (oMessagesOnce ?w) ?w evPing = []"
    by (simp_all add: registered_def ready_def cMessagePool_enrol enrol_def blank_def)
  have c: "calls ?w = []" "posted ?w = []"
    by (simp_all add: ready_def cMessagePool_enrol enrol_def blank_def)
  from ping_answered [where w = ?w and H = "browser 1" and ev = ?ev and args = "[]"] y p t
  have "calls (snd (onMessage (browser 1) ?ev ?w)) = calls ?w @ [(OnPing, [])]"
    and "posted (snd (onMessage (browser 1) ?ev ?w)) =
      posted ?w @ [(Platform, JSON_stringify (browser 1) [JStr evPong])]"
    by blast+
  with c have "calls (snd (onMessage (browser 1) ?ev ?w)) = [(OnPing, [])]"
    and "posted (snd (onMessage (browser 1) ?ev ?w)) = [(Platform, wire [JStr evPong])]"
    by (simp_all add: browser_def)
  with y p t show ?thesis by blast
qed

text \<open>
  The claim as first stated has the pong posted back to the sender's context, and every
  pool register the handler when constructed. A ping whose event names window 7 as its
  source is answered to the platform window alone, and the pool of the second class has no
  entry for \<open>evPing\<close> after its construction.
\<close>

theorem ping_answered_counterexample:
  "source \<lparr>data = wire [JStr evPing], source = Some (Win 7)\<rparr> = Some (Win 7) \<and>
   posted (snd (onMessage (browser 1) \<lparr>data = wire [JStr evPing], source = Some (Win 7)\<rparr>
     (ready (Some True) cMessagePool))) = [(Platform, wire [JStr evPong])] \<and>
   oMessages (MessagePool None None) evPing = None"
  by (simp add: onMessage_def browser_def parse_samples_ping recv_def get_plain excluded_def
      name_string_def ready_def cMessagePool_enrol enrol_def blank_def defaultExcludeList_def
      own_keys_def at_def apply_handler_def onPing_def post_def postMessage_def MessagePool_def)

section \<open>Registration and removal\<close>

lemma live_set: "h \<in> set (live xs) \<longleftrightarrow> Some h \<in> set xs"
  by (induction xs rule: live.induct) auto

lemma indexOf_None: "indexOf xs h = None \<longleftrightarrow> Some h \<notin> set xs"
  by (induction xs) auto


lemma lastIndexOf_Some: "lastIndexOf xs h = Some i \<Longrightarrow> i < length xs \<and> xs ! i = Some h"
  by (induction xs arbitrary: i) (auto split: option.splits if_splits)

lemma live_append: "live (xs @ ys) = live xs @ live ys"
  by (induction xs rule: live.induct) auto


lemma registered_enrol:
  "registered (oMessages (enrol n h w)) (enrol n h w) n =
     (if h \<in> set (registered (oMessages w) w n) then registered (oMessages w) w n
      else registered (oMessages w) w n @ [h])"
  by (auto simp: registered_def enrol_def live_set indexOf_None live_append split: option.splits)

lemma registered_enrolOnce:
  "registered (oMessagesOnce (enrolOnce n h w)) (enrolOnce n h w) n =
     (if h \<in> set (registered (oMessagesOnce w) w n) then registered (oMessagesOnce w) w n
      else registered (oMessagesOnce w) w n @ [h])"
  by (auto simp: registered_def enrolOnce_def live_set indexOf_None live_append split: option.splits)

lemma enrol_twice: "enrol n h (enrol n h w) = enrol n h w"
  by (auto simp: enrol_def indexOf_None split: option.splits)

lemma enrolOnce_twice: "enrolOnce n h (enrolOnce n h w) = enrolOnce n h w"
  by (auto simp: enrolOnce_def indexOf_None split: option.splits)


lemma enrol_fields:
  "calls (enrol n h w) = calls w" "syncs (enrol n h w) = syncs w"
  "oMessagesOnce (enrol n h w) = oMessagesOnce w"
  by (simp_all add: enrol_def split: option.splits)

lemma enrolOnce_fields:
  "calls (enrolOnce n h w) = calls w" "syncs (enrolOnce n h w) = syncs w"
  "oMessages (enrolOnce n h w) = oMessages w"
  by (simp_all add: enrolOnce_def split: option.splits)

lemma count_list_snoc_new: "h \<notin> set xs \<Longrightarrow> count_list (xs @ [h]) h = 1"
  by (simp add: count_list_0_iff)

lemma count_list_distinct: "distinct xs \<Longrightarrow> h \<in> set xs \<Longrightarrow> count_list xs h = 1"
  by (induction xs) (auto simp: count_list_0_iff)

lemma count_registered_enrol:
  "distinct (registered (oMessages w) w n) \<Longrightarrow>
   count_list (registered (oMessages (enrol n h w)) (enrol n h w) n) h = 1"
  by (simp add: registered_enrol count_list_distinct count_list_snoc_new)

lemma count_registered_enrolOnce:
  "distinct (registered (oMessagesOnce w) w n) \<Longrightarrow>
   count_list (registered (oMessagesOnce (enrolOnce n h w)) (enrolOnce n h w) n) h = 1"
  by (simp add: registered_enrolOnce count_list_distinct count_list_snoc_new)




lemma registered_arrays:
  "oMessages w1 = oMessages w \<Longrightarrow> registered (oMessages w1) w1 n = registered (oMessages w) w1 n"
  "oMessagesOnce w1 = oMessagesOnce w \<Longrightarrow> registered (oMessagesOnce w1) w1 n = registered (oMessagesOnce w) w1 n"
  by simp_all


lemma registering_twice:
  "register n h (snd (register n h w)) = register n h w"
  "registerOnce n h (snd (registerOnce n h w)) = registerOnce n h w"
proof -
  show "register n h (snd (register n h w)) = register n h w"
  proof (cases "Object_prototype n = None \<or> oMessages w n \<noteq> None")
    case True
    moreover have "oMessages (enrol n h w) n \<noteq> None"
      by (auto simp: enrol_def split: option.splits)
    ultimately show ?thesis by (simp add: register_enrol enrol_twice)
  next
    case False
    then show ?thesis by (simp add: register_throws)
  qed
  show "registerOnce n h (snd (registerOnce n h w)) = registerOnce n h w"
  proof (cases "Object_prototype n = None \<or> oMessagesOnce w n \<noteq> None")
    case True
    moreover have "oMessagesOnce (enrolOnce n h w) n \<noteq> None"
      by (auto simp: enrolOnce_def split: option.splits)
    ultimately show ?thesis by (simp add: registerOnce_enrolOnce enrolOnce_twice)
  next
    case False
    then show ?thesis by (simp add: registerOnce_throws)
  qed
qed

text \<open>
  Where the registration returns, calling it twice leaves the pool in the state one call
  leaves it in; a dispatch of \<open>n\<close> then applies \<open>h\<close> exactly once (where the array held no
  duplicate before, \<open>h\<close> is not registered in the other table for \<open>n\<close> too, and the
  handlers are inert). A second handler reference \<open>h'\<close> is kept beside \<open>h\<close> whatever its
  body, in either table.
\<close>

lemma registration_idempotent:
  "enrol n h (enrol n h w) = enrol n h w \<and>
   enrolOnce n h (enrolOnce n h w) = enrolOnce n h w \<and>
   (distinct (registered (oMessages w) w n) \<and>
    h \<notin> set (registered (oMessagesOnce (enrol n h w)) (enrol n h w) n) \<and>
    list_all (inert H (enrol n h w) args)
      (registered (oMessages (enrol n h w)) (enrol n h w) n
       @ registered (oMessagesOnce (enrol n h w)) (enrol n h w) n) \<longrightarrow>
      fst (recv H (JStr n # args) (enrol n h (enrol n h w))) = None \<and>
      calls (snd (recv H (JStr n # args) (enrol n h (enrol n h w)))) =
        calls w @ map (\<lambda>g. (g, args))
          (registered (oMessages (enrol n h w)) (enrol n h w) n
           @ registered (oMessagesOnce (enrol n h w)) (enrol n h w) n) \<and>
      count_list
        (registered (oMessages (enrol n h w)) (enrol n h w) n
         @ registered (oMessagesOnce (enrol n h w)) (enrol n h w) n) h = 1) \<and>
   (distinct (registered (oMessagesOnce w) w n) \<and>
    h \<notin> set (registered (oMessages (enrolOnce n h w)) (enrolOnce n h w) n) \<and>
    list_all (inert H (enrolOnce n h w) args)
      (registered (oMessages (enrolOnce n h w)) (enrolOnce n h w) n
       @ registered (oMessagesOnce (enrolOnce n h w)) (enrolOnce n h w) n) \<longrightarrow>
      fst (recv H (JStr n # args) (enrolOnce n h (enrolOnce n h w))) = None \<and>
      calls (snd (recv H (JStr n # args) (enrolOnce n h (enrolOnce n h w)))) =
        calls w @ map (\<lambda>g. (g, args))
          (registered (oMessages (enrolOnce n h w)) (enrolOnce n h w) n
           @ registered (oMessagesOnce (enrolOnce n h w)) (enrolOnce n h w) n) \<and>
      count_list
        (registered (oMessages (enrolOnce n h w)) (enrolOnce n h w) n
         @ registered (oMessagesOnce (enrolOnce n h w)) (enrolOnce n h w) n) h = 1) \<and>
   (h \<noteq> h' \<longrightarrow>
      count_list (registered (oMessages (enrol n h' (enrol n h w)))
                   (enrol n h' (enrol n h w)) n) h
        = count_list (registered (oMessages (enrol n h w)) (enrol n h w) n) h \<and>
      h' \<in> set (registered (oMessages (enrol n h' (enrol n h w)))
                   (enrol n h' (enrol n h w)) n) \<and>
      h \<in> set (registered (oMessages (enrol n h' (enrol n h w)))
                   (enrol n h' (enrol n h w)) n) \<and>
      count_list (registered (oMessagesOnce (enrolOnce n h' (enrolOnce n h w)))
                   (enrolOnce n h' (enrolOnce n h w)) n) h
        = count_list (registered (oMessagesOnce (enrolOnce n h w)) (enrolOnce n h w) n) h \<and>
      h' \<in> set (registered (oMessagesOnce (enrolOnce n h' (enrolOnce n h w)))
                   (enrolOnce n h' (enrolOnce n h w)) n) \<and>
      h \<in> set (registered (oMessagesOnce (enrolOnce n h' (enrolOnce n h w)))
                   (enrolOnce n h' (enrolOnce n h w)) n))"
proof (intro conjI impI)
  show "enrol n h (enrol n h w) = enrol n h w" by (rule enrol_twice)
  show "enrolOnce n h (enrolOnce n h w) = enrolOnce n h w" by (rule enrolOnce_twice)
next
  let ?w = "enrol n h w"
  let ?L = "registered (oMessages ?w) ?w n @ registered (oMessagesOnce ?w) ?w n"
  assume a: "distinct (registered (oMessages w) w n) \<and>
    h \<notin> set (registered (oMessagesOnce ?w) ?w n) \<and> list_all (inert H ?w args) ?L"
  then have "\<forall>g \<in> set (registered (oMessages ?w) ?w (key_of (JStr n # args))
      @ registered (oMessagesOnce ?w) ?w (key_of (JStr n # args))). inert H ?w (tl (JStr n # args)) g"
    by (simp add: list_all_iff)
  from recv_inert [OF this]
  show "fst (recv H (JStr n # args) (enrol n h ?w)) = None"
    and "calls (snd (recv H (JStr n # args) (enrol n h ?w))) = calls w @ map (\<lambda>g. (g, args)) ?L"
    by (simp_all add: enrol_twice enrol_fields)
  from a show "count_list ?L h = 1"
    by (simp add: count_registered_enrol count_list_0_iff enrol_fields)
next
  let ?w = "enrolOnce n h w"
  let ?L = "registered (oMessages ?w) ?w n @ registered (oMessagesOnce ?w) ?w n"
  assume a: "distinct (registered (oMessagesOnce w) w n) \<and>
    h \<notin> set (registered (oMessages ?w) ?w n) \<and> list_all (inert H ?w args) ?L"
  then have "\<forall>g \<in> set (registered (oMessages ?w) ?w (key_of (JStr n # args))
      @ registered (oMessagesOnce ?w) ?w (key_of (JStr n # args))). inert H ?w (tl (JStr n # args)) g"
    by (simp add: list_all_iff)
  from recv_inert [OF this]
  show "fst (recv H (JStr n # args) (enrolOnce n h ?w)) = None"
    and "calls (snd (recv H (JStr n # args) (enrolOnce n h ?w))) = calls w @ map (\<lambda>g. (g, args)) ?L"
    by (simp_all add: enrolOnce_twice enrolOnce_fields)
  from a show "count_list ?L h = 1"
    by (simp add: count_registered_enrolOnce count_list_0_iff enrolOnce_fields)
next
  assume "h \<noteq> h'"
  then show "count_list (registered (oMessages (enrol n h' (enrol n h w)))
                   (enrol n h' (enrol n h w)) n) h
        = count_list (registered (oMessages (enrol n h w)) (enrol n h w) n) h"
    by (simp add: registered_enrol [of n h' "enrol n h w"])
  show "h' \<in> set (registered (oMessages (enrol n h' (enrol n h w)))
                   (enrol n h' (enrol n h w)) n)"
    by (simp add: registered_enrol [of n h' "enrol n h w"])
  show "h \<in> set (registered (oMessages (enrol n h' (enrol n h w)))
                   (enrol n h' (enrol n h w)) n)"
    by (simp add: registered_enrol)
next
  assume "h \<noteq> h'"
  then show "count_list (registered (oMessagesOnce (enrolOnce n h' (enrolOnce n h w)))
                   (enrolOnce n h' (enrolOnce n h w)) n) h
        = count_list (registered (oMessagesOnce (enrolOnce n h w)) (enrolOnce n h w) n) h"
    by (simp add: registered_enrolOnce [of n h' "enrolOnce n h w"])
  show "h' \<in> set (registered (oMessagesOnce (enrolOnce n h' (enrolOnce n h w)))
                   (enrolOnce n h' (enrolOnce n h w)) n)"
    by (simp add: registered_enrolOnce [of n h' "enrolOnce n h w"])
  show "h \<in> set (registered (oMessagesOnce (enrolOnce n h' (enrolOnce n h w)))
                   (enrolOnce n h' (enrolOnce n h w)) n)"
    by (simp add: registered_enrolOnce)
qed

lemma parse_samples_constructor:
  "parse_samples (wire [JStr ''constructor'']) = Some (JArr [JStr ''constructor''])"
  by code_simp

text \<open>
  C4. The claim is that for any event name \<open>n\<close> a handler registered twice is applied
  exactly once per dispatch of \<open>n\<close>. For the name \<open>constructor\<close>, which the empty tables
  inherit from \<open>Object.prototype\<close>, \<open>register\<close> and \<open>registerOnce\<close> throw a \<open>TypeError\<close> and
  store nothing, the first time and the second, and a dispatch of \<open>constructor\<close> applies no
  handler at all.
\<close>

theorem register_inherited_name:
  "register ''constructor'' (User 1) cMessagePool = (Some TypeError, cMessagePool) \<and>
   registerOnce ''constructor'' (User 1) cMessagePool = (Some TypeError, cMessagePool) \<and>
   moves (browser 1)
     [Call (Register ''constructor'' (User 1)), Call (Register ''constructor'' (User 1))]
     (ready (Some True) cMessagePool) = ready (Some True) cMessagePool \<and>
   onMessage (browser 1) \<lparr>data = wire [JStr ''constructor''], source = Some (Win 1)\<rparr>
     (ready (Some True) cMessagePool)
     = (None, (ready (Some True) cMessagePool)
          \<lparr>logged := [(ConsoleLog, [JStr ''[MessagePool]: constructor''])]\<rparr>)"
proof -
  have p: "Object_prototype ''constructor'' = Some (Function 1)"
    by (simp add: Object_prototype_def)
  have o: "oMessages cMessagePool ''constructor'' = None"
    "oMessagesOnce cMessagePool ''constructor'' = None"
    "oMessages (ready (Some True) cMessagePool) ''constructor'' = None"
    "oMessagesOnce (ready (Some True) cMessagePool) ''constructor'' = None"
    by (simp_all add: cMessagePool_enrol enrol_def blank_def evPing_def ready_def)
  have g: "get (oMessages (ready (Some True) cMessagePool)) ''constructor'' = Some (Inherited (Function 1))"
    "get (oMessagesOnce (ready (Some True) cMessagePool)) ''constructor'' = Some (Inherited (Function 1))"
    by (simp_all add: get_inherited [OF _ p] o)
  have r: "register ''constructor'' (User 1) (ready (Some True) cMessagePool)
      = (Some TypeError, ready (Some True) cMessagePool)"
    by (simp add: register_throws p o)
  have f: "bReady (ready (Some True) cMessagePool) = Some True"
    "aExcludeLog (ready (Some True) cMessagePool) = [evPing, evPong]"
    "sName (ready (Some True) cMessagePool) = ''MessagePool''"
    "fnLog (ready (Some True) cMessagePool) = ConsoleLog"
    "logged (ready (Some True) cMessagePool) = []"
    by (simp_all add: cMessagePool_enrol enrol_def blank_def ready_def defaultExcludeList_def)
  have m: "onMessage (browser 1) \<lparr>data = wire [JStr ''constructor''], source = Some (Win 1)\<rparr>
     (ready (Some True) cMessagePool)
     = (None, (ready (Some True) cMessagePool)
          \<lparr>logged := [(ConsoleLog, [JStr ''[MessagePool]: constructor''])]\<rparr>)"
    by (simp add: onMessage_def browser_def parse_samples_constructor recv_def excluded_def
        name_string_def f g call_log_def evPing_def evPong_def)
  from p o r m show ?thesis
    by (simp add: register_throws registerOnce_throws)
qed



section \<open>A synchronization that is never answered\<close>

lemma names_differ [simp]: "evPing \<noteq> evPong" "evPong \<noteq> evPing"
  by (simp_all add: evPing_def evPong_def)

lemma onSync_resolved:
  "syncs w s = Some sy \<Longrightarrow> resolve H (sTarget sy) = Some x \<Longrightarrow>
   onSync H s w =
     (None, w\<lparr>posted := posted w @ [ping H x],
              timers := timers w @ [(nextTimer w, now w + 1000, s)],
              nextTimer := Suc (nextTimer w),
              syncs := (syncs w)(s \<mapsto> sy\<lparr>iSync := Some (nextTimer w)\<rparr>)\<rparr>)"
  by (simp add: onSync_def send_def postMessage_def setTimeout_def ping_def)

lemma expire_resolved:
  "timers w = [(t, due, s)] \<Longrightarrow> syncs w s = Some sy \<Longrightarrow> resolve H (sTarget sy) = Some x \<Longrightarrow>
   now w \<le> due \<Longrightarrow>
   expire H t w =
     (None, w\<lparr>posted := posted w @ [ping H x],
              timers := [(nextTimer w, due + 1000, s)],
              nextTimer := Suc (nextTimer w),
              now := due,
              syncs := (syncs w)(s \<mapsto> sy\<lparr>iSync := Some (nextTimer w)\<rparr>)\<rparr>)"
  by (simp add: expire_def onSync_resolved [where sy = sy and x = x] max_def)

lemma started_fields:
  assumes "resolve H tgt = Some x"
  shows "now (started H tgt cb b) = 0"
    and "posted (started H tgt cb b) = [ping H x]"
    and "fired (started H tgt cb b) = []"
    and "timers (started H tgt cb b) = [(1, 1000, 0)]"
    and "nextTimer (started H tgt cb b) = 2"
    and "syncs (started H tgt cb b) 0 = Some \<lparr>sTarget = tgt, fnCallback = cb, iSync = Some 1\<rparr>"
    and "oMessages (started H tgt cb b) = [evPing \<mapsto> 0]"
    and "oMessagesOnce (started H tgt cb b) = [evPong \<mapsto> 1]"
    and "arrays (started H tgt cb b) 0 = [Some OnPing]"
    and "arrays (started H tgt cb b) (Suc 0) = [Some (OnPong 0)]"
proof -
  let ?w = "enrolOnce evPong (OnPong 0)
     ((ready b cMessagePool)\<lparr>syncs := (syncs (ready b cMessagePool))(0 \<mapsto> \<lparr>sTarget = tgt, fnCallback = cb, iSync = None\<rparr>),
        nextSync := Suc 0\<rparr>)"
  have s: "syncs ?w 0 = Some \<lparr>sTarget = tgt, fnCallback = cb, iSync = None\<rparr>"
    by (simp add: enrolOnce_def ready_def cMessagePool_enrol enrol_def blank_def)
  have n: "nextSync (ready b cMessagePool) = 0"
    by (simp add: ready_def cMessagePool_enrol enrol_def blank_def)
  have "started H tgt cb b = snd (onSync H 0 ?w)"
    by (simp add: started_def synchronize_enrol Let_def n)
  also have "\<dots> = ?w\<lparr>posted := posted ?w @ [ping H x],
              timers := timers ?w @ [(nextTimer ?w, now ?w + 1000, 0)],
              nextTimer := Suc (nextTimer ?w),
              syncs := (syncs ?w)(0 \<mapsto> \<lparr>sTarget = tgt, fnCallback = cb, iSync = Some (nextTimer ?w)\<rparr>)\<rparr>"
    using onSync_resolved [OF s, of H x] assms by simp
  finally have e: "started H tgt cb b = \<dots>" .
  show "now (started H tgt cb b) = 0"
    and "posted (started H tgt cb b) = [ping H x]"
    and "fired (started H tgt cb b) = []"
    and "timers (started H tgt cb b) = [(1, 1000, 0)]"
    and "nextTimer (started H tgt cb b) = 2"
    and "syncs (started H tgt cb b) 0 = Some \<lparr>sTarget = tgt, fnCallback = cb, iSync = Some 1\<rparr>"
    and "oMessages (started H tgt cb b) = [evPing \<mapsto> 0]"
    and "oMessagesOnce (started H tgt cb b) = [evPong \<mapsto> 1]"
    and "arrays (started H tgt cb b) 0 = [Some OnPing]"
    and "arrays (started H tgt cb b) (Suc 0) = [Some (OnPong 0)]"
    unfolding e
    by (simp_all add: enrolOnce_def ready_def cMessagePool_enrol enrol_def blank_def)
qed

lemma pending_started: "resolve H tgt = Some x \<Longrightarrow> pending H tgt cb x 0 (started H tgt cb b)"
  by (simp add: pending_def started_fields)

lemma pending_expire:
  assumes "resolve H tgt = Some x" and "pending H tgt cb x k w"
  shows "pending H tgt cb x (Suc k) (snd (expire H (Suc k) w))"
proof -
  from assms(2) have t: "timers w = [(Suc k, 1000 * Suc k, 0)]"
    and s: "syncs w 0 = Some \<lparr>sTarget = tgt, fnCallback = cb, iSync = Some (Suc k)\<rparr>"
    and n: "now w \<le> 1000 * Suc k"
    by (simp_all add: pending_def)
  from assms(1) have r: "resolve H (sTarget \<lparr>sTarget = tgt, fnCallback = cb, iSync = Some (Suc k)\<rparr>) = Some x"
    by simp
  from expire_resolved [OF t s r n] assms(2) show ?thesis
    by (simp add: pending_def replicate_append_same)
qed

lemma moves_append: "moves H (ms @ ns) w = moves H ns (moves H ms w)"
  by (induction ms arbitrary: w) simp_all

lemma pending_retries:
  assumes "resolve H tgt = Some x"
  shows "pending H tgt cb x k (moves H (map Expire [1..<Suc k]) (started H tgt cb b))"
proof (induction k)
  case 0
  from assms show ?case by (simp add: pending_started)
next
  case (Suc k)
  have "moves H (map Expire [1..<Suc (Suc k)]) (started H tgt cb b)
      = snd (expire H (Suc k) (moves H (map Expire [1..<Suc k]) (started H tgt cb b)))"
    by (simp add: moves_append)
  with pending_expire [OF assms Suc] show ?case by simp
qed

lemma settled_cancel:
  assumes "pending H tgt cb x k w"
  shows "settled H (replicate (Suc k) (ping H x)) (snd (cancel 0 w))"
    and "posted (snd (cancel 0 w)) = posted w"
proof -
  from assms have s: "syncs w 0 = Some \<lparr>sTarget = tgt, fnCallback = cb, iSync = Some (Suc k)\<rparr>"
    and f: "timers w = [(Suc k, 1000 * Suc k, 0)]" "posted w = replicate (Suc k) (ping H x)" "fired w = []"
      "oMessages w = [evPing \<mapsto> 0]" "oMessagesOnce w = [evPong \<mapsto> 1]"
      "arrays w 0 = [Some OnPing]" "arrays w (Suc 0) = [Some (OnPong 0)]"
    by (simp_all add: pending_def)
  let ?u = "snd (unregister evPong (Some (OnPong 0)) (clearTimeout (Some (Suc k)) w))"
  have u: "?u = w\<lparr>timers := [], arrays := (arrays w)(Suc 0 := [None])\<rparr>"
    by (simp add: unregister_def get_plain clearTimeout_def f)
  have c: "snd (cancel 0 w) = ?u\<lparr>syncs := (syncs ?u)(0 := map_option (\<lambda>ob. ob\<lparr>iSync := None\<rparr>) (syncs ?u 0))\<rparr>"
    by (simp add: cancel_snd s Let_def)
  show "posted (snd (cancel 0 w)) = posted w"
    unfolding c u by simp
  have "\<exists>j. posted w = replicate (Suc k) (ping H x) @ replicate j (pong H)"
    using f(2) by (intro exI [of _ 0]) simp
  then show "settled H (replicate (Suc k) (ping H x)) (snd (cancel 0 w))"
    unfolding c u by (simp add: settled_def registered_def f)
qed

lemma registered_cong: "arrays w1 = arrays w \<Longrightarrow> registered t w1 n = registered t w n"
  by (cases "t n") (simp_all add: registered_def)

lemma registered_delete:
  "registered (t(k := None)) w n = (if n = k then [] else registered t w n)"
  by (simp add: registered_def)

lemma settled_fields:
  "timers w1 = timers w \<Longrightarrow> fired w1 = fired w \<Longrightarrow> posted w1 = posted w \<Longrightarrow>
   oMessages w1 = oMessages w \<Longrightarrow> oMessagesOnce w1 = oMessagesOnce w \<Longrightarrow> arrays w1 = arrays w \<Longrightarrow>
   settled H P w \<Longrightarrow> settled H P w1"
  by (simp add: settled_def registered_cong [of w1 w])

lemma settled_logged: "settled H P w \<Longrightarrow> settled H P (w\<lparr>logged := l\<rparr>)"
  by (rule settled_fields) simp_all

lemma announce_more_fields [simp]:
  "timers (announce xs w) = timers w" "fired (announce xs w) = fired w"
  by (simp_all add: announce_def call_log_def Let_def)

lemma settled_recv:
  assumes "settled H P w"
  shows "settled H P (snd (recv H xs w))"
proof -
  let ?k = "key_of xs"
  let ?L = "registered (oMessages w) w ?k @ registered (oMessagesOnce w) w ?k"
  from assms have a: "set (registered (oMessages w) w ?k) \<subseteq> {OnPing}"
    and b: "set (registered (oMessagesOnce w) w ?k) \<subseteq> {OnPing}"
    by (simp_all add: settled_def)
  from assms obtain j where j: "posted w = P @ replicate j (pong H)"
    by (auto simp: settled_def)
  then have "posted w @ replicate (length ?L) (pong H) = P @ replicate (j + length ?L) (pong H)"
    by (simp add: replicate_add)
  then have "\<exists>i. posted w @ replicate (length ?L) (pong H) = P @ replicate i (pong H)" ..
  with assms show ?thesis
    unfolding recv_pings [OF a b]
    by (simp add: settled_def registered_delete
        registered_cong [of "announce xs w\<lparr>calls := _, posted := _, oMessagesOnce := _\<rparr>" w])
qed

lemma settled_onMessage:
  assumes "settled H P w"
  shows "settled H P (snd (onMessage H ev w))"
proof (cases "JSON_parse H (data ev)")
  case None
  with assms show ?thesis by (simp add: onMessage_def)
next
  case (Some v)
  show ?thesis
  proof (cases "bReady w = Some True")
    case False
    have "snd (messageLog v ''SKIP '' w) = w\<lparr>logged := logged (snd (messageLog v ''SKIP '' w))\<rparr>"
      by (rule messageLog_only_logs)
    with assms have "settled H P (snd (messageLog v ''SKIP '' w))"
      using settled_logged [of H P w] by metis
    with Some False show ?thesis by (simp add: onMessage_def)
  next
    case True
    with Some assms show ?thesis
      by (cases v) (simp_all add: onMessage_def settled_recv)
  qed
qed

lemma settled_expire: "settled H P w \<Longrightarrow> settled H P (snd (expire H t w))"
  by (simp add: expire_def settled_def)

lemma settled_step: "silent m \<Longrightarrow> settled H P w \<Longrightarrow> settled H P (snd (step H m w))"
proof (cases m)
  case (Call c)
  assume "silent m" and s: "settled H P w"
  with Call show ?thesis
    by (cases c)
      (auto simp: ready_def log_def init_def excludeLog_def call_log_def
        intro!: settled_fields [OF _ _ _ _ _ _ s])
next
  case (Message ev)
  assume "settled H P w"
  with Message show ?thesis by (simp add: settled_onMessage)
next
  case (Expire t)
  assume "settled H P w"
  with Expire show ?thesis by (simp add: settled_expire)
qed

lemma settled_moves: "list_all silent ms \<Longrightarrow> settled H P w \<Longrightarrow> settled H P (moves H ms w)"
  by (induction ms arbitrary: w) (simp_all add: settled_step)

lemma three_expiries: "map Expire [1..<Suc 3] = [Expire 1, Expire 2, Expire 3]"
  by code_simp

text \<open>
  C7 (as amended). A synchronization session is created against a target that resolves to
  a window and never answers. The session sends its first ping when it is constructed and
  one more each time its retry timer expires: after \<open>k\<close> retry intervals (at time
  \<open>1000 * k\<close>) exactly \<open>k + 1\<close> pings have been sent, four after three intervals, the
  callback has not fired and one timer is pending. \<open>cancel()\<close> at that point clears the
  pending timer; whatever messages arrive and whatever the host lets expire afterwards,
  no further ping is sent (the pool posts nothing but its own pongs) and the callback
  does not fire.
\<close>

theorem sync_unanswered:
  assumes "resolve H tgt = Some x" and "list_all silent ms"
  shows "now (moves H (Call (Synchronize tgt cb) # map Expire [1..<Suc k]) (ready b cMessagePool)) = 1000 * k \<and>
         posted (moves H (Call (Synchronize tgt cb) # map Expire [1..<Suc k]) (ready b cMessagePool))
           = replicate (Suc k) (x, JSON_stringify H [JStr evPing]) \<and>
         fired (moves H (Call (Synchronize tgt cb) # map Expire [1..<Suc k]) (ready b cMessagePool)) = [] \<and>
         timers (moves H (Call (Synchronize tgt cb) # map Expire [1..<Suc k]) (ready b cMessagePool))
           = [(Suc k, 1000 * Suc k, 0)] \<and>
         fst (cancel 0
           (moves H (Call (Synchronize tgt cb) # map Expire [1..<Suc k]) (ready b cMessagePool))) = None \<and>
         timers (snd (cancel 0
           (moves H (Call (Synchronize tgt cb) # map Expire [1..<Suc k]) (ready b cMessagePool)))) = [] \<and>
         timers (moves H ms
           (snd (cancel 0
             (moves H (Call (Synchronize tgt cb) # map Expire [1..<Suc k]) (ready b cMessagePool))))) = [] \<and>
         fired (moves H ms
           (snd (cancel 0
             (moves H (Call (Synchronize tgt cb) # map Expire [1..<Suc k]) (ready b cMessagePool))))) = [] \<and>
         (\<exists>j. posted (moves H ms
           (snd (cancel 0
             (moves H (Call (Synchronize tgt cb) # map Expire [1..<Suc k]) (ready b cMessagePool)))))
           = replicate (Suc k) (x, JSON_stringify H [JStr evPing])
             @ replicate j (Platform, JSON_stringify H [JStr evPong]))"
proof -
  let ?w = "moves H (Call (Synchronize tgt cb) # map Expire [1..<Suc k]) (ready b cMessagePool)"
  have "?w = moves H (map Expire [1..<Suc k]) (started H tgt cb b)"
    by (simp add: started_def)
  with pending_retries [OF assms(1), of cb k b] have p: "pending H tgt cb x k ?w" by simp
  from settled_cancel [OF p] have c: "settled H (replicate (Suc k) (ping H x)) (snd (cancel 0 ?w))" by simp
  from settled_moves [OF assms(2) c]
  have m: "settled H (replicate (Suc k) (ping H x)) (moves H ms (snd (cancel 0 ?w)))" .
  from p c m show ?thesis
    by (simp add: pending_def settled_def ping_def pong_def cancel_fst)
qed

theorem sync_unanswered_witness:
  "resolve (browser 1) (Window (Win 2)) = Some (Win 2) \<and>
   list_all silent [Message \<lparr>data = wire [JStr evPong], source = Some (Win 2)\<rparr>, Expire 4,
     Message \<lparr>data = wire [JStr evPing], source = Some (Win 2)\<rparr>] \<and>
   now (moves (browser 1) [Call (Synchronize (Window (Win 2)) 0), Expire 1, Expire 2, Expire 3]
     (ready (Some True) cMessagePool)) = 3000 \<and>
   posted (moves (browser 1) [Call (Synchronize (Window (Win 2)) 0), Expire 1, Expire 2, Expire 3]
     (ready (Some True) cMessagePool)) = replicate 4 (Win 2, wire [JStr evPing]) \<and>
   timers (snd (cancel 0
     (moves (browser 1) [Call (Synchronize (Window (Win 2)) 0), Expire 1, Expire 2, Expire 3]
       (ready (Some True) cMessagePool)))) = [] \<and>
   fired (moves (browser 1) [Message \<lparr>data = wire [JStr evPong], source = Some (Win 2)\<rparr>, Expire 4,
       Message \<lparr>data = wire [JStr evPing], source = Some (Win 2)\<rparr>]
     (snd (cancel 0
       (moves (browser 1) [Call (Synchronize (Window (Win 2)) 0), Expire 1, Expire 2, Expire 3]
         (ready (Some True) cMessagePool))))) = []"
proof -
  have r: "resolve (browser 1) (Window (Win 2)) = Some (Win 2)"
    by (simp add: resolve_def)
  have s: "list_all silent [Message \<lparr>data = wire [JStr evPong], source = Some (Win 2)\<rparr>, Expire 4,
     Message \<lparr>data = wire [JStr evPing], source = Some (Win 2)\<rparr>]"
    by simp
  have e: "Call (Synchronize (Window (Win 2)) 0) # map Expire [1..<Suc 3]
      = [Call (Synchronize (Window (Win 2)) 0), Expire 1, Expire 2, Expire 3]"
    by (simp only: three_expiries)
  note t = sync_unanswered [OF r s, of 0 3 "Some True", unfolded e]
  have j: "JSON_stringify (browser 1) = wire" by (simp add: browser_def)
  from t r s show ?thesis
    unfolding j by simp
qed

text \<open>
  The claim as first stated counts three pings after three retry intervals. At time 3000,
  after the third expiry, the session has posted four.
\<close>

theorem sync_unanswered_counterexample:
  "now (moves (browser 1) [Call (Synchronize (Window (Win 2)) 0), Expire 1, Expire 2, Expire 3]
     cMessagePool) = 3000 \<and>
   posted (moves (browser 1) [Call (Synchronize (Window (Win 2)) 0), Expire 1, Expire 2, Expire 3]
     cMessagePool) = replicate 4 (Win 2, wire [JStr evPing]) \<and>
   fired (moves (browser 1) [Call (Synchronize (Window (Win 2)) 0), Expire 1, Expire 2, Expire 3]
     cMessagePool) = []"
proof -
  have r: "resolve (browser 1) (Window (Win 2)) = Some (Win 2)"
    by (simp add: resolve_def)
  have c: "ready (Some False) cMessagePool = cMessagePool"
    by (simp add: ready_def cMessagePool_enrol enrol_def blank_def)
  have "moves (browser 1) [Call (Synchronize (Window (Win 2)) 0), Expire 1, Expire 2, Expire 3] cMessagePool
      = moves (browser 1) [Expire 1, Expire 2, Expire 3] (started (browser 1) (Window (Win 2)) 0 (Some False))"
    by (simp add: started_def c)
  moreover have j: "JSON_stringify (browser 1) = wire" by (simp add: browser_def)
  ultimately show ?thesis
    using pending_retries [OF r, of 0 3 "Some False", unfolded three_expiries]
    by (simp add: pending_def ping_def)
qed

section \<open>A handler registered once\<close>

lemma bounded_trans:
  "bounded h n r i d w w1 \<Longrightarrow> bounded h n r i e w1 w2 \<Longrightarrow> bounded h n r i (d + e) w w2"
  by (auto simp: bounded_def)

lemma at_snoc: "at (xs @ [Some g]) j = Some h \<Longrightarrow> g \<noteq> h \<Longrightarrow> at xs j = Some h"
  by (auto simp: at_def nth_append split: if_splits)

lemma at_single: "at [Some g] j = Some h \<Longrightarrow> g = h"
  by (auto simp: at_def split: if_splits)

lemma at_update: "at (xs[k := None]) j = Some h \<Longrightarrow> at xs j = Some h"
  by (cases "j = k") (auto simp: at_def split: if_splits)

lemma bounded_enrol:
  "g \<noteq> h \<Longrightarrow> tied h n r i w \<Longrightarrow> bounded h n r i 0 w (enrol m g w)"
  by (auto simp: bounded_def tied_def spent_def applications_def enrol_def
      dest: at_snoc at_single split: option.splits if_splits)

lemma bounded_enrolOnce:
  "g \<noteq> h \<Longrightarrow> tied h n r i w \<Longrightarrow> bounded h n r i 0 w (enrolOnce m g w)"
  by (auto simp: bounded_def tied_def spent_def applications_def enrolOnce_def
      dest: at_snoc at_single split: option.splits if_splits)

lemma bounded_same:
  "tied h n r i w \<Longrightarrow> nextRef w1 = nextRef w \<Longrightarrow> oMessages w1 = oMessages w \<Longrightarrow>
   oMessagesOnce w1 = oMessagesOnce w \<Longrightarrow> arrays w1 = arrays w \<Longrightarrow> calls w1 = calls w \<Longrightarrow>
   bounded h n r i 0 w w1"
  by (simp add: bounded_def tied_def spent_def applications_def)

lemma bounded_register:
  "g \<noteq> h \<Longrightarrow> tied h n r i w \<Longrightarrow> bounded h n r i 0 w (snd (register m g w))"
  using register_result [of m g w] by (auto simp: bounded_enrol bounded_same)

lemma bounded_registerOnce:
  "g \<noteq> h \<Longrightarrow> tied h n r i w \<Longrightarrow> bounded h n r i 0 w (snd (registerOnce m g w))"
  using registerOnce_result [of m g w] by (auto simp: bounded_enrolOnce bounded_same)

lemma bounded_unregister:
  "tied h n r i w \<Longrightarrow> bounded h n r i 0 w (snd (unregister m g w))"
  by (auto simp: bounded_def tied_def spent_def applications_def unregister_def
      dest!: at_update split: option.splits slot.splits if_splits)

lemma bounded_kept:
  "tied h n r i w \<Longrightarrow> kept w w1 \<Longrightarrow> calls w1 = calls w \<Longrightarrow> bounded h n r i 0 w w1"
  by (rule bounded_same) (simp_all add: kept_def)

lemma bounded_then_kept:
  "bounded h n r i d w w1 \<Longrightarrow> kept w1 w2 \<Longrightarrow> calls w2 = calls w1 \<Longrightarrow> bounded h n r i d w w2"
  by (simp add: bounded_def tied_def spent_def applications_def kept_def)

lemma bounded_after_kept:
  "kept w w1 \<Longrightarrow> calls w1 = calls w \<Longrightarrow> bounded h n r i d w1 w2 \<Longrightarrow> bounded h n r i d w w2"
  by (simp add: bounded_def tied_def spent_def applications_def kept_def)

lemma tied_kept: "kept w w1 \<Longrightarrow> tied h n r i w \<Longrightarrow> tied h n r i w1"
  by (simp add: tied_def kept_def)

lemma bounded_tied: "bounded h n r i d w w1 \<Longrightarrow> tied h n r i w1"
  by (simp add: bounded_def)

lemma onSync_heap:
  "nextRef (snd (onSync H s w)) = nextRef w \<and> oMessages (snd (onSync H s w)) = oMessages w \<and>
   oMessagesOnce (snd (onSync H s w)) = oMessagesOnce w \<and> arrays (snd (onSync H s w)) = arrays w \<and>
   calls (snd (onSync H s w)) = calls w"
proof (cases "syncs w s")
  case None
  then show ?thesis by (simp add: onSync_def)
next
  case (Some sy)
  obtain w1 where w1: "send H (sTarget sy) [JStr evPing] w = (None, w1)" "kept w w1" "calls w1 = calls w"
    by (rule send_result)
  with Some show ?thesis
    by (simp add: onSync_def setTimeout_def kept_def)
qed

lemma bounded_onSync: "tied h n r i w \<Longrightarrow> bounded h n r i 0 w (snd (onSync H s w))"
  by (rule bounded_same) (simp_all add: onSync_heap)

lemma bounded_synchronize:
  assumes "avoids h (Synchronize t cb)" and "tied h n r i w"
  shows "bounded h n r i 0 w (snd (synchronize H t cb w))"
proof -
  let ?w1 = "w\<lparr>syncs := (syncs w)(nextSync w \<mapsto> \<lparr>sTarget = t, fnCallback = cb, iSync = None\<rparr>),
                 nextSync := Suc (nextSync w)\<rparr>"
  let ?w2 = "enrolOnce evPong (OnPong (nextSync w)) ?w1"
  from assms(1) have g: "OnPong (nextSync w) \<noteq> h" by (cases h) auto
  from assms(2) have t1: "tied h n r i ?w1" by (simp add: tied_def)
  have a: "bounded h n r i 0 w ?w1"
    using assms(2) by (intro bounded_same) simp_all
  from bounded_enrolOnce [OF g t1] have b: "bounded h n r i 0 ?w1 ?w2" .
  from b have "bounded h n r i 0 ?w2 (snd (onSync H (nextSync w) ?w2))"
    by (intro bounded_onSync) (rule bounded_tied)
  with bounded_trans [OF a b] have "bounded h n r i 0 w (snd (onSync H (nextSync w) ?w2))"
    using bounded_trans by fastforce
  then show ?thesis by (simp add: synchronize_enrol Let_def)
qed

lemma bounded_cancel: "tied h n r i w \<Longrightarrow> bounded h n r i 0 w (snd (cancel s w))"
proof -
  assume t: "tied h n r i w"
  show ?thesis
  proof (cases "syncs w s")
    case None
    with t show ?thesis by (simp add: cancel_snd bounded_same)
  next
    case (Some sy)
    show ?thesis
    proof (cases "iSync sy")
      case None
      with Some t show ?thesis by (simp add: cancel_snd bounded_same)
    next
      case (Some k)
      let ?w1 = "clearTimeout (Some k) w"
      let ?w2 = "snd (unregister evPong (Some (OnPong s)) ?w1)"
      have a: "bounded h n r i 0 w ?w1"
        using t by (intro bounded_same) (simp_all add: clearTimeout_def)
      then have "bounded h n r i 0 ?w1 ?w2"
        by (intro bounded_unregister) (rule bounded_tied)
      with a have b: "bounded h n r i 0 w ?w2"
        using bounded_trans by fastforce
      have "bounded h n r i 0 ?w2
          (?w2\<lparr>syncs := (syncs ?w2)(s := map_option (\<lambda>ob. ob\<lparr>iSync := None\<rparr>) (syncs ?w2 s))\<rparr>)"
        using b by (intro bounded_same) (simp_all add: bounded_tied)
      with b have "bounded h n r i 0 w
          (?w2\<lparr>syncs := (syncs ?w2)(s := map_option (\<lambda>ob. ob\<lparr>iSync := None\<rparr>) (syncs ?w2 s))\<rparr>)"
        using bounded_trans by fastforce
      with \<open>syncs w s = Some sy\<close> Some show ?thesis
        by (simp add: cancel_snd Let_def)
    qed
  qed
qed

lemma bounded_exec:
  assumes "avoids h c" and "tied h n r i w"
  shows "bounded h n r i 0 w (snd (exec H c w))"
proof (cases "quiet c")
  case True
  from exec_quiet [OF True, of H w] assms(2) show ?thesis
    by (intro bounded_kept) simp_all
next
  case False
  with assms show ?thesis
    by (cases c)
      (simp_all add: bounded_register bounded_registerOnce bounded_unregister
        bounded_synchronize bounded_cancel bounded_same split: sum.splits)
qed

lemma bounded_run:
  "list_all (avoids h) cs \<Longrightarrow> tied h n r i w \<Longrightarrow> bounded h n r i 0 w (snd (run H cs w))"
proof (induction cs arbitrary: w)
  case Nil
  then show ?case by (simp add: bounded_same)
next
  case (Cons c cs)
  from Cons.prems have a: "bounded h n r i 0 w (snd (exec H c w))"
    by (simp add: bounded_exec)
  show ?case
  proof (cases "exec H c w")
    case (Pair e w1)
    show ?thesis
    proof (cases e)
      case None
      from a Pair have b: "bounded h n r i 0 w w1" by simp
      with Cons.IH [of w1] Cons.prems have "bounded h n r i 0 w1 (snd (run H cs w1))"
        by (simp add: bounded_tied)
      with b have "bounded h n r i 0 w (snd (run H cs w1))"
        using bounded_trans by fastforce
      with Pair None show ?thesis by simp
    next
      case (Some x)
      with a Pair show ?thesis by simp
    qed
  qed
qed

lemma bounded_weaken: "bounded h n r i d w w1 \<Longrightarrow> d \<le> e \<Longrightarrow> bounded h n r i e w w1"
  by (simp add: bounded_def)

lemma bounded_zero_trans:
  "bounded h n r i 0 w w1 \<Longrightarrow> bounded h n r i d w1 w2 \<Longrightarrow> bounded h n r i d w w2"
  using bounded_trans [of h n r i 0 w w1 d w2] by simp

lemma bounded_apply_handler:
  assumes "never_registers H h" and "tied h n r i w"
  shows "bounded h n r i (if g = h then 1 else 0) w (snd (apply_handler H g a w))"
proof -
  let ?w1 = "w\<lparr>calls := calls w @ [(g, a)]\<rparr>"
  from assms(2) have a: "bounded h n r i (if g = h then 1 else 0) w ?w1"
    by (simp add: bounded_def tied_def spent_def applications_def)
  then have t1: "tied h n r i ?w1" by (rule bounded_tied)
  have "bounded h n r i 0 ?w1 (snd (apply_handler H g a w))"
  proof (cases g)
    case OnPing
    from t1 have "bounded h n r i 0 ?w1 (onPing H ?w1)"
      by (intro bounded_same) (simp_all add: onPing_def post_def postMessage_def)
    with OnPing show ?thesis by (simp add: apply_handler_def)
  next
    case (OnPong s)
    show ?thesis
    proof (cases "syncs w s")
      case None
      with OnPong t1 show ?thesis by (simp add: apply_handler_def onPong_def bounded_same)
    next
      case (Some sy)
      let ?w2 = "clearTimeout (iSync sy) ?w1"
      let ?w3 = "?w2\<lparr>fired := fired ?w2 @ [s]\<rparr>"
      from t1 have b: "bounded h n r i 0 ?w1 ?w3"
        by (intro bounded_same) (simp_all add: clearTimeout_def split: option.splits)
      from assms(1) have "list_all (avoids h) (body H (fnCallback sy) [])"
        by (simp add: never_registers_def)
      from bounded_run [OF this bounded_tied [OF b]] b
      have "bounded h n r i 0 ?w1 (snd (run H (body H (fnCallback sy) []) ?w3))"
        by (rule bounded_zero_trans [rotated])
      with OnPong Some show ?thesis
        by (simp add: apply_handler_def onPong_def Let_def)
    qed
  next
    case (User k)
    from assms(1) have "list_all (avoids h) (body H k a)"
      by (simp add: never_registers_def)
    from bounded_run [OF this t1] User show ?thesis
      by (simp add: apply_handler_def)
  qed
  with a show ?thesis
    using bounded_trans [of h n r i "if g = h then 1 else 0" w ?w1 0] by simp
qed

lemma bounded_for_in:
  assumes "never_registers H h"
  shows "tied h n r i w \<Longrightarrow> distinct ks \<Longrightarrow>
         bounded h n r i (if l = r \<and> i \<in> set ks then 1 else 0) w (snd (for_in H l ks a w))"
proof (induction ks arbitrary: w)
  case Nil
  then show ?case by (simp add: bounded_same)
next
  case (Cons k ks)
  from Cons.prems have d: "distinct ks" and nk: "k \<notin> set ks" by simp_all
  show ?case
  proof (cases "at (arrays w l) k")
    case None
    from Cons.IH [OF Cons.prems(1) d] have "bounded h n r i (if l = r \<and> i \<in> set ks then 1 else 0) w
        (snd (for_in H l ks a w))" .
    then have "bounded h n r i (if l = r \<and> i \<in> set (k # ks) then 1 else 0) w (snd (for_in H l ks a w))"
      by (rule bounded_weaken) simp
    with None show ?thesis by simp
  next
    case (Some g)
    obtain e w1 where ap: "apply_handler H g a w = (e, w1)" by (cases "apply_handler H g a w")
    from bounded_apply_handler [OF assms Cons.prems(1), of g a] ap
    have b: "bounded h n r i (if g = h then 1 else 0) w w1" by simp
    show ?thesis
    proof (cases "g = h")
      case True
      with Some Cons.prems(1) have lr: "l = r" and ki: "k = i" by (simp_all add: tied_def)
      from b True have b1: "bounded h n r i 1 w w1" by simp
      show ?thesis
      proof (cases e)
        case None
        from Cons.IH [OF bounded_tied [OF b1] d] nk ki
        have "bounded h n r i 0 w1 (snd (for_in H l ks a w1))" by simp
        with b1 have "bounded h n r i 1 w (snd (for_in H l ks a w1))"
          using bounded_trans [of h n r i 1 w w1 0] by simp
        with Some ap None lr ki show ?thesis by simp
      next
        case (Some x)
        with \<open>at (arrays w l) k = Some g\<close> ap b1 lr ki show ?thesis by simp
      qed
    next
      case False
      with b have b0: "bounded h n r i 0 w w1" by simp
      show ?thesis
      proof (cases e)
        case None
        from Cons.IH [OF bounded_tied [OF b0] d] b0
        have "bounded h n r i (if l = r \<and> i \<in> set ks then 1 else 0) w (snd (for_in H l ks a w1))"
          by (rule bounded_zero_trans [rotated])
        then have "bounded h n r i (if l = r \<and> i \<in> set (k # ks) then 1 else 0) w
            (snd (for_in H l ks a w1))"
          by (rule bounded_weaken) simp
        with Some ap None show ?thesis by simp
      next
        case (Some x)
        from b0 have "bounded h n r i (if l = r \<and> i \<in> set (k # ks) then 1 else 0) w w1"
          by (rule bounded_weaken) simp
        with \<open>at (arrays w l) k = Some g\<close> ap Some show ?thesis by simp
      qed
    qed
  qed
qed

lemma once_only_bounded: "bounded h n r i 0 w w' \<Longrightarrow> once_only h r d w w'"
  by (simp add: once_only_def bounded_def)

lemma once_only_trans:
  "once_only h r d w w1 \<Longrightarrow> once_only h r d w1 w2 \<Longrightarrow> d \<le> 1 \<Longrightarrow> once_only h r d w w2"
  by (auto simp: once_only_def split: if_splits)

lemma own_keys_distinct: "distinct (own_keys xs)"
  by (simp add: own_keys_def)

lemma recv_phases:
  "recv H xs w =
     (case persistent_phase H xs w of
        (e, w2) \<Rightarrow> if e \<noteq> None then (e, w2) else once_phase H xs w2)"
  unfolding recv_unfold persistent_phase_def once_phase_def by (rule refl)

lemma snd_recv_phases:
  "snd (recv H xs w) =
     (if fst (persistent_phase H xs w) \<noteq> None then snd (persistent_phase H xs w)
      else snd (once_phase H xs (snd (persistent_phase H xs w))))"
  by (cases "persistent_phase H xs w") (simp add: recv_phases)

lemma persistent_phase_tied:
  assumes "never_registers H h" and "tied h n r i w"
  shows "bounded h n r i 0 w (snd (persistent_phase H xs w))"
proof -
  let ?a = "announce xs w"
  have ka: "kept w ?a" "calls ?a = calls w"
    by (simp_all add: kept_def announce_def call_log_def Let_def)
  from assms(2) ka(1) have ta: "tied h n r i ?a" by (rule tied_kept [rotated])
  have "bounded h n r i 0 ?a (snd (persistent_phase H xs w))"
  proof (cases "oMessages ?a (key_of xs)")
    case None
    with ta show ?thesis by (simp add: persistent_phase_def bounded_same)
  next
    case (Some l)
    with ta have "l \<noteq> r" by (auto simp: tied_def)
    with bounded_for_in [OF assms(1) ta own_keys_distinct, of l "arrays ?a l" "tl xs"] Some
    show ?thesis by (simp add: persistent_phase_def)
  qed
  with ka show ?thesis by (rule bounded_after_kept)
qed

lemma once_phase_tied:
  assumes "never_registers H h" and "tied h n r i w"
  shows "tied h n r i (snd (once_phase H xs w)) \<and>
         once_only h r (if key_of xs = n then 1 else 0) w (snd (once_phase H xs w))"
proof (cases "oMessagesOnce w (key_of xs)")
  case None
  with assms(2) show ?thesis by (simp add: once_phase_def once_only_def)
next
  case (Some l)
  let ?k = "key_of xs"
  let ?w3 = "w\<lparr>oMessagesOnce := (oMessagesOnce w)(?k := None)\<rparr>"
  from assms(2) have t3: "tied h n r i ?w3" by (simp add: tied_def)
  have s3: "spent r w \<Longrightarrow> spent r ?w3" by (simp add: spent_def)
  have a3: "applications h ?w3 = applications h w" by (simp add: applications_def)
  note f = bounded_for_in [OF assms(1) t3 own_keys_distinct, of l "arrays w l" "tl xs"]
  have o: "once_phase H xs w = for_in H l (own_keys (arrays w l)) (tl xs) ?w3"
    using Some by (simp add: once_phase_def)
  show ?thesis
  proof (cases "l = r")
    case True
    with Some assms(2) have kn: "?k = n" by (simp add: tied_def)
    from True Some have ns: "\<not> spent r w" by (auto simp: spent_def)
    from assms(2) kn have sp: "spent r ?w3" by (auto simp: tied_def spent_def)
    from f have "bounded h n r i 1 ?w3 (snd (for_in H l (own_keys (arrays w l)) (tl xs) ?w3))"
      by (rule bounded_weaken) simp
    with sp ns a3 kn show ?thesis
      unfolding o by (simp add: once_only_def bounded_def)
  next
    case False
    with f have "bounded h n r i 0 ?w3 (snd (for_in H l (own_keys (arrays w l)) (tl xs) ?w3))"
      by simp
    with s3 a3 show ?thesis
      unfolding o by (auto simp: once_only_def bounded_def)
  qed
qed

lemma recv_tied:
  assumes "never_registers H h" and "tied h n r i w"
  shows "tied h n r i (snd (recv H xs w)) \<and>
         once_only h r (if key_of xs = n then 1 else 0) w (snd (recv H xs w))"
proof -
  note p = persistent_phase_tied [OF assms, of xs]
  note q = once_phase_tied [OF assms(1) bounded_tied [OF p], of xs]
  from p q show ?thesis
    unfolding snd_recv_phases by (auto simp: once_only_def bounded_def split: if_splits)
qed

lemma once_only_refl: "once_only h r d w w"
  by (simp add: once_only_def)

lemma once_only_weaken: "once_only h r d w w1 \<Longrightarrow> d \<le> e \<Longrightarrow> once_only h r e w w1"
  by (auto simp: once_only_def)

lemma messageLog_heap:
  "nextRef (snd (messageLog v p w)) = nextRef w" "oMessages (snd (messageLog v p w)) = oMessages w"
  "oMessagesOnce (snd (messageLog v p w)) = oMessagesOnce w" "arrays (snd (messageLog v p w)) = arrays w"
  "calls (snd (messageLog v p w)) = calls w"
  by (auto simp: messageLog_def call_log_def split: option.splits json.splits)

lemma onMessage_tied:
  assumes "never_registers H h" and "tied h n r i w"
  shows "tied h n r i (snd (onMessage H ev w)) \<and>
         once_only h r (if names H n (Message ev) then 1 else 0) w (snd (onMessage H ev w))"
proof (cases "JSON_parse H (data ev)")
  case None
  with assms(2) show ?thesis by (simp add: onMessage_def once_only_refl)
next
  case (Some v)
  show ?thesis
  proof (cases "bReady w = Some True")
    case False
    let ?w1 = "snd (messageLog v ''SKIP '' w)"
    from bounded_same [OF assms(2) messageLog_heap] have "bounded h n r i 0 w ?w1" .
    with Some False show ?thesis
      by (simp add: onMessage_def bounded_tied once_only_bounded)
  next
    case True
    show ?thesis
    proof (cases v)
      case JNull
      with recv_tied [OF assms, of "[]"] Some True show ?thesis by (simp add: onMessage_def)
    next
      case (JArr xs)
      with recv_tied [OF assms, of xs] Some True show ?thesis by (simp add: onMessage_def)
    qed (use Some True assms(2) in \<open>simp_all add: onMessage_def once_only_refl\<close>)
  qed
qed

lemma expire_tied:
  assumes "tied h n r i w"
  shows "bounded h n r i 0 w (snd (expire H t w))"
proof (cases "filter (\<lambda>e. fst e = t) (timers w)")
  case Nil
  with assms show ?thesis by (simp add: expire_def bounded_same)
next
  case (Cons e es)
  obtain k due s where e: "e = (k, due, s)" by (cases e)
  let ?w1 = "w\<lparr>timers := filter (\<lambda>e. fst e \<noteq> t) (timers w), now := max (now w) due\<rparr>"
  from assms have "bounded h n r i 0 w (snd (onSync H s ?w1))"
    by (intro bounded_same) (simp_all add: onSync_heap)
  with Cons e show ?thesis by (simp add: expire_def)
qed

lemma step_tied:
  assumes "never_registers H h" and "avoiding h m" and "tied h n r i w"
  shows "tied h n r i (snd (step H m w)) \<and>
         once_only h r (if names H n m then 1 else 0) w (snd (step H m w))"
proof (cases m)
  case (Call c)
  with assms bounded_exec [of h c n r i w H] show ?thesis
    by (simp add: bounded_tied once_only_bounded)
next
  case (Message ev)
  with onMessage_tied [OF assms(1,3), of ev] show ?thesis by simp
next
  case (Expire t)
  with expire_tied [OF assms(3), of H t] show ?thesis
    by (simp add: bounded_tied once_only_bounded)
qed

lemma within_moves:
  assumes "never_registers H h"
  shows "list_all (avoiding h) ms \<Longrightarrow> within h n r i c w \<Longrightarrow> within h n r i c (moves H ms w)"
proof (induction ms arbitrary: w)
  case Nil
  then show ?case by simp
next
  case (Cons m ms)
  from Cons.prems have a: "avoiding h m" and t: "tied h n r i w" by (simp_all add: within_def)
  from step_tied [OF assms a t] have "tied h n r i (snd (step H m w))"
    and "once_only h r 1 w (snd (step H m w))"
    by (auto intro: once_only_weaken)
  with Cons.prems(2) have "within h n r i c (snd (step H m w))"
    by (auto simp: within_def once_only_def split: if_splits)
  with Cons.IH Cons.prems(1) show ?case by simp
qed

lemma untouched_moves:
  assumes "never_registers H h"
  shows "list_all (avoiding h) ms \<Longrightarrow> \<not> list_ex (names H n) ms \<Longrightarrow> tied h n r i w \<Longrightarrow>
         applications h (moves H ms w) = applications h w"
proof (induction ms arbitrary: w)
  case Nil
  then show ?case by simp
next
  case (Cons m ms)
  from Cons.prems have a: "avoiding h m" and nn: "\<not> names H n m" by simp_all
  from step_tied [OF assms a Cons.prems(3)] nn
  have t: "tied h n r i (snd (step H m w))" and "once_only h r 0 w (snd (step H m w))"
    by simp_all
  then have "applications h (snd (step H m w)) = applications h w"
    by (auto simp: once_only_def split: if_splits)
  with Cons.IH [OF _ _ t] Cons.prems(1,2) show ?case by simp
qed

lemma at_member: "at xs j = Some h \<Longrightarrow> Some h \<in> set xs"
  by (metis at_def nth_mem option.distinct(1))

lemma at_single_index: "at [x] j = Some h \<Longrightarrow> j = 0"
  by (cases j) (simp_all add: at_def)

lemma at_snoc_index: "at (xs @ [x]) j = Some h \<Longrightarrow> Some h \<notin> set xs \<Longrightarrow> j = length xs"
proof (rule ccontr)
  assume a: "at (xs @ [x]) j = Some h" and n: "Some h \<notin> set xs" and "j \<noteq> length xs"
  with a have "j < length xs" by (auto simp: at_def split: if_splits)
  with a have "at xs j = Some h" by (simp add: at_def nth_append)
  with n show False by (auto dest: at_member)
qed

lemma tied_enrolOnce:
  assumes "well_formed w" and "\<forall>p. Some h \<notin> set (arrays w p)"
  shows "\<exists>r i. tied h n r i (enrolOnce n h w)"
proof (cases "oMessagesOnce w n")
  case None
  let ?w = "enrolOnce n h w"
  from None have f: "nextRef ?w = Suc (nextRef w)" "oMessages ?w = oMessages w"
    "oMessagesOnce ?w = (oMessagesOnce w)(n \<mapsto> nextRef w)"
    "arrays ?w = (arrays w)(nextRef w := [Some h])"
    by (simp_all add: enrolOnce_def)
  have "\<forall>p j. at (arrays ?w p) j = Some h \<longrightarrow> p = nextRef w \<and> j = 0"
    using assms(2) by (auto simp: f dest: at_member at_single_index split: if_splits)
  moreover from assms(1) have "\<forall>m. oMessages ?w m \<noteq> Some (nextRef w)"
    and "\<forall>m. oMessagesOnce ?w m = Some (nextRef w) \<longrightarrow> m = n"
    by (auto simp: f well_formed_def)
  ultimately have "tied h n (nextRef w) 0 ?w"
    by (simp add: tied_def f(1))
  then show ?thesis by blast
next
  case (Some q)
  let ?w = "enrolOnce n h w"
  from assms(2) have "indexOf (arrays w q) h = None" by (simp add: indexOf_None)
  with Some have f: "nextRef ?w = nextRef w" "oMessages ?w = oMessages w"
    "oMessagesOnce ?w = oMessagesOnce w"
    "arrays ?w = (arrays w)(q := arrays w q @ [Some h])"
    by (simp_all add: enrolOnce_def)
  have "\<forall>p j. at (arrays ?w p) j = Some h \<longrightarrow> p = q \<and> j = length (arrays w q)"
    using assms(2) by (auto simp: f dest: at_member at_snoc_index split: if_splits)
  moreover from assms(1) Some have "q < nextRef w" and "\<forall>m. oMessages ?w m \<noteq> Some q"
    and "\<forall>m. oMessagesOnce ?w m = Some q \<longrightarrow> m = n"
    by (auto simp: f well_formed_def)
  ultimately have "tied h n q (length (arrays w q)) ?w"
    unfolding tied_def f(1) by blast
  then show ?thesis by blast
qed

lemma idle_refl: "absent h w \<Longrightarrow> idle h w w"
  by (simp add: idle_def)

lemma idle_trans: "idle h w w1 \<Longrightarrow> idle h w1 w2 \<Longrightarrow> idle h w w2"
  by (simp add: idle_def)

lemma idle_absent: "idle h w w1 \<Longrightarrow> absent h w1"
  by (simp add: idle_def)

lemma idle_same:
  "absent h w \<Longrightarrow> arrays w1 = arrays w \<Longrightarrow> calls w1 = calls w \<Longrightarrow> idle h w w1"
  by (simp add: idle_def absent_def applications_def)

lemma idle_kept: "absent h w \<Longrightarrow> kept w w1 \<Longrightarrow> calls w1 = calls w \<Longrightarrow> idle h w w1"
  by (rule idle_same) (simp_all add: kept_def)

lemma idle_enrol: "g \<noteq> h \<Longrightarrow> absent h w \<Longrightarrow> idle h w (enrol m g w)"
  by (auto simp: idle_def absent_def applications_def enrol_def split: option.splits if_splits)

lemma idle_enrolOnce: "g \<noteq> h \<Longrightarrow> absent h w \<Longrightarrow> idle h w (enrolOnce m g w)"
  by (auto simp: idle_def absent_def applications_def enrolOnce_def split: option.splits if_splits)

lemma idle_register: "g \<noteq> h \<Longrightarrow> absent h w \<Longrightarrow> idle h w (snd (register m g w))"
  using register_result [of m g w] by (auto simp: idle_enrol idle_refl)

lemma idle_registerOnce: "g \<noteq> h \<Longrightarrow> absent h w \<Longrightarrow> idle h w (snd (registerOnce m g w))"
  using registerOnce_result [of m g w] by (auto simp: idle_enrolOnce idle_refl)

lemma set_update_None: "Some h \<in> set (xs[i := None]) \<Longrightarrow> Some h \<in> set xs"
  by (auto dest: set_update_subset_insert [THEN subsetD])

lemma idle_unregister: "absent h w \<Longrightarrow> idle h w (snd (unregister m g w))"
  by (auto simp: idle_def absent_def applications_def unregister_def
      dest: set_update_None split: option.splits slot.splits if_splits)

lemma idle_onSync: "absent h w \<Longrightarrow> idle h w (snd (onSync H s w))"
  by (rule idle_same) (simp_all add: onSync_heap)

lemma idle_synchronize:
  assumes "avoids h (Synchronize t cb)" and "absent h w"
  shows "idle h w (snd (synchronize H t cb w))"
proof -
  let ?w1 = "w\<lparr>syncs := (syncs w)(nextSync w \<mapsto> \<lparr>sTarget = t, fnCallback = cb, iSync = None\<rparr>),
                 nextSync := Suc (nextSync w)\<rparr>"
  let ?w2 = "enrolOnce evPong (OnPong (nextSync w)) ?w1"
  from assms(1) have g: "OnPong (nextSync w) \<noteq> h" by (cases h) auto
  from assms(2) have a: "idle h w ?w1" by (intro idle_same) simp_all
  from idle_enrolOnce [OF g idle_absent [OF a]] have b: "idle h ?w1 ?w2" .
  from idle_onSync [OF idle_absent [OF b]] have "idle h ?w2 (snd (onSync H (nextSync w) ?w2))" .
  with a b have "idle h w (snd (onSync H (nextSync w) ?w2))"
    by (blast intro: idle_trans)
  then show ?thesis by (simp add: synchronize_enrol Let_def)
qed

lemma idle_cancel: "absent h w \<Longrightarrow> idle h w (snd (cancel s w))"
proof -
  assume t: "absent h w"
  show ?thesis
  proof (cases "syncs w s")
    case None
    with t show ?thesis by (simp add: cancel_snd idle_refl)
  next
    case (Some sy)
    show ?thesis
    proof (cases "iSync sy")
      case None
      with Some t show ?thesis by (simp add: cancel_snd idle_refl)
    next
      case (Some k)
      let ?w1 = "clearTimeout (Some k) w"
      let ?w2 = "snd (unregister evPong (Some (OnPong s)) ?w1)"
      let ?w3 = "?w2\<lparr>syncs := (syncs ?w2)(s := map_option (\<lambda>ob. ob\<lparr>iSync := None\<rparr>) (syncs ?w2 s))\<rparr>"
      have a: "idle h w ?w1"
        using t by (intro idle_same) (simp_all add: clearTimeout_def)
      from idle_unregister [OF idle_absent [OF a]] have b: "idle h ?w1 ?w2" .
      from idle_absent [OF b] have c: "idle h ?w2 ?w3"
        by (intro idle_same) simp_all
      from a b c have "idle h w ?w3" by (blast intro: idle_trans)
      with \<open>syncs w s = Some sy\<close> Some show ?thesis
        by (simp add: cancel_snd Let_def)
    qed
  qed
qed

lemma idle_exec:
  assumes "avoids h c" and "absent h w"
  shows "idle h w (snd (exec H c w))"
proof (cases "quiet c")
  case True
  from exec_quiet [OF True, of H w] assms(2) show ?thesis
    by (intro idle_kept) simp_all
next
  case False
  with assms show ?thesis
    by (cases c)
      (simp_all add: idle_register idle_registerOnce idle_unregister
        idle_synchronize idle_cancel idle_refl split: sum.splits)
qed

lemma idle_run:
  "list_all (avoids h) cs \<Longrightarrow> absent h w \<Longrightarrow> idle h w (snd (run H cs w))"
proof (induction cs arbitrary: w)
  case Nil
  then show ?case by (simp add: idle_refl)
next
  case (Cons c cs)
  from Cons.prems have a: "idle h w (snd (exec H c w))"
    by (simp add: idle_exec)
  show ?case
  proof (cases "exec H c w")
    case (Pair e w1)
    show ?thesis
    proof (cases e)
      case None
      from a Pair have b: "idle h w w1" by simp
      with Cons.IH [of w1] Cons.prems have "idle h w1 (snd (run H cs w1))"
        by (simp add: idle_absent)
      with b have "idle h w (snd (run H cs w1))" by (rule idle_trans)
      with Pair None show ?thesis by simp
    next
      case (Some x)
      with a Pair show ?thesis by simp
    qed
  qed
qed

lemma idle_apply_handler:
  assumes "never_registers H h" and "absent h w" and "g \<noteq> h"
  shows "idle h w (snd (apply_handler H g a w))"
proof -
  let ?w1 = "w\<lparr>calls := calls w @ [(g, a)]\<rparr>"
  from assms(2,3) have a: "idle h w ?w1"
    by (simp add: idle_def absent_def applications_def)
  then have t1: "absent h ?w1" by (rule idle_absent)
  have "idle h ?w1 (snd (apply_handler H g a w))"
  proof (cases g)
    case OnPing
    from t1 have "idle h ?w1 (onPing H ?w1)"
      by (intro idle_same) (simp_all add: onPing_def post_def postMessage_def)
    with OnPing show ?thesis by (simp add: apply_handler_def)
  next
    case (OnPong s)
    show ?thesis
    proof (cases "syncs w s")
      case None
      with OnPong t1 show ?thesis by (simp add: apply_handler_def onPong_def idle_refl)
    next
      case (Some sy)
      let ?w2 = "clearTimeout (iSync sy) ?w1"
      let ?w3 = "?w2\<lparr>fired := fired ?w2 @ [s]\<rparr>"
      from t1 have b: "idle h ?w1 ?w3"
        by (intro idle_same) (simp_all add: clearTimeout_def split: option.splits)
      from assms(1) have "list_all (avoids h) (body H (fnCallback sy) [])"
        by (simp add: never_registers_def)
      from idle_run [OF this idle_absent [OF b]] b
      have "idle h ?w1 (snd (run H (body H (fnCallback sy) []) ?w3))"
        by (blast intro: idle_trans)
      with OnPong Some show ?thesis
        by (simp add: apply_handler_def onPong_def Let_def)
    qed
  next
    case (User k)
    from assms(1) have "list_all (avoids h) (body H k a)"
      by (simp add: never_registers_def)
    from idle_run [OF this t1] User show ?thesis
      by (simp add: apply_handler_def)
  qed
  with a show ?thesis by (rule idle_trans)
qed

lemma idle_for_in:
  assumes "never_registers H h"
  shows "absent h w \<Longrightarrow> idle h w (snd (for_in H l ks a w))"
proof (induction ks arbitrary: w)
  case Nil
  then show ?case by (simp add: idle_refl)
next
  case (Cons k ks)
  show ?case
  proof (cases "at (arrays w l) k")
    case None
    with Cons show ?thesis by simp
  next
    case (Some g)
    with Cons.prems have gh: "g \<noteq> h" by (auto simp: absent_def dest: at_member)
    obtain e w1 where ap: "apply_handler H g a w = (e, w1)" by (cases "apply_handler H g a w")
    from idle_apply_handler [OF assms Cons.prems gh, of a] ap have b: "idle h w w1" by simp
    show ?thesis
    proof (cases e)
      case None
      from Cons.IH [OF idle_absent [OF b]] b have "idle h w (snd (for_in H l ks a w1))"
        by (blast intro: idle_trans)
      with Some ap None show ?thesis by simp
    next
      case (Some x)
      with \<open>at (arrays w l) k = Some g\<close> ap b show ?thesis by simp
    qed
  qed
qed

lemma idle_recv:
  assumes "never_registers H h" and "absent h w"
  shows "idle h w (snd (recv H xs w))"
proof -
  let ?a = "announce xs w"
  from assms(2) have a: "idle h w ?a" by (intro idle_same) simp_all
  have p: "idle h ?a (snd (persistent_phase H xs w))"
    by (cases "oMessages ?a (key_of xs)")
      (simp_all add: persistent_phase_def idle_refl idle_absent [OF a]
        idle_for_in [OF assms(1) idle_absent [OF a]])
  let ?w2 = "snd (persistent_phase H xs w)"
  from a p have p2: "idle h w ?w2" by (rule idle_trans)
  have "idle h ?w2 (snd (once_phase H xs ?w2))"
  proof (cases "oMessagesOnce ?w2 (key_of xs)")
    case None
    with p2 show ?thesis by (simp add: once_phase_def idle_refl idle_absent)
  next
    case (Some l)
    let ?w3 = "?w2\<lparr>oMessagesOnce := (oMessagesOnce ?w2)(key_of xs := None)\<rparr>"
    from idle_absent [OF p2] have c: "idle h ?w2 ?w3" by (intro idle_same) simp_all
    from idle_for_in [OF assms(1) idle_absent [OF c]] c
    have "idle h ?w2 (snd (for_in H l (own_keys (arrays ?w2 l)) (tl xs) ?w3))"
      by (blast intro: idle_trans)
    with Some show ?thesis by (simp add: once_phase_def)
  qed
  with p2 have "idle h w (snd (once_phase H xs ?w2))" by (rule idle_trans)
  with p2 show ?thesis by (simp add: snd_recv_phases)
qed

lemma idle_onMessage:
  assumes "never_registers H h" and "absent h w"
  shows "idle h w (snd (onMessage H ev w))"
proof (cases "JSON_parse H (data ev)")
  case None
  with assms(2) show ?thesis by (simp add: onMessage_def idle_refl)
next
  case (Some v)
  show ?thesis
  proof (cases "bReady w = Some True")
    case False
    from assms(2) have "idle h w (snd (messageLog v ''SKIP '' w))"
      by (rule idle_same) (simp_all add: messageLog_heap)
    with Some False show ?thesis by (simp add: onMessage_def)
  next
    case True
    show ?thesis
    proof (cases v)
      case JNull
      with idle_recv [OF assms, of "[]"] Some True show ?thesis by (simp add: onMessage_def)
    next
      case (JArr xs)
      with idle_recv [OF assms, of xs] Some True show ?thesis by (simp add: onMessage_def)
    qed (use Some True assms(2) in \<open>simp_all add: onMessage_def idle_refl\<close>)
  qed
qed

lemma idle_expire: "absent h w \<Longrightarrow> idle h w (snd (expire H t w))"
proof (cases "filter (\<lambda>e. fst e = t) (timers w)")
  case Nil
  assume "absent h w"
  with Nil show ?thesis by (simp add: expire_def idle_refl)
next
  case (Cons e es)
  assume a: "absent h w"
  obtain k due s where e: "e = (k, due, s)" by (cases e)
  let ?w1 = "w\<lparr>timers := filter (\<lambda>e. fst e \<noteq> t) (timers w), now := max (now w) due\<rparr>"
  from a have "idle h w (snd (onSync H s ?w1))"
    by (intro idle_same) (simp_all add: onSync_heap)
  with Cons e show ?thesis by (simp add: expire_def)
qed

lemma idle_step:
  assumes "never_registers H h" and "avoiding h m" and "absent h w"
  shows "idle h w (snd (step H m w))"
  using assms by (cases m) (simp_all add: idle_exec idle_onMessage idle_expire)

lemma idle_moves:
  assumes "never_registers H h"
  shows "list_all (avoiding h) ms \<Longrightarrow> absent h w \<Longrightarrow> idle h w (moves H ms w)"
proof (induction ms arbitrary: w)
  case Nil
  then show ?case by (simp add: idle_refl)
next
  case (Cons m ms)
  from Cons.prems have a: "idle h w (snd (step H m w))"
    by (simp add: idle_step [OF assms])
  from Cons.IH [OF _ idle_absent [OF a]] Cons.prems(1) a show ?case
    by (auto intro: idle_trans)
qed

lemma applied_at_most_once:
  assumes "never_registers H h" and "list_all (avoiding h) ms"
    and "well_formed w" and "\<forall>p. Some h \<notin> set (arrays w p)"
  shows "applications h (moves H ms (snd (registerOnce n h w))) \<le> applications h w + 1"
    and "\<not> list_ex (names H n) ms \<Longrightarrow>
         applications h (moves H ms (snd (registerOnce n h w))) = applications h w"
proof -
  have "applications h (moves H ms (snd (registerOnce n h w))) \<le> applications h w + 1 \<and>
    (\<not> list_ex (names H n) ms \<longrightarrow>
         applications h (moves H ms (snd (registerOnce n h w))) = applications h w)"
  proof (cases "registerOnce n h w = (None, enrolOnce n h w)")
    case True
    from tied_enrolOnce [OF assms(3,4)] obtain r i where t: "tied h n r i (enrolOnce n h w)"
      by blast
    have a: "applications h (enrolOnce n h w) = applications h w"
      by (simp add: applications_def enrolOnce_fields)
    with t have "within h n r i (applications h w) (enrolOnce n h w)"
      by (simp add: within_def)
    from within_moves [OF assms(1,2) this]
    have "applications h (moves H ms (enrolOnce n h w)) \<le> applications h w + 1"
      by (simp add: within_def split: if_splits)
    moreover have "\<not> list_ex (names H n) ms \<Longrightarrow>
        applications h (moves H ms (enrolOnce n h w)) = applications h w"
      using untouched_moves [OF assms(1,2) _ t] a by simp
    ultimately show ?thesis using True by auto
  next
    case False
    with registerOnce_result [of n h w] have r: "snd (registerOnce n h w) = w" by auto
    from assms(4) have "absent h w" by (simp add: absent_def)
    from idle_moves [OF assms(1,2) this] show ?thesis
      by (simp add: r idle_def)
  qed
  then show "applications h (moves H ms (snd (registerOnce n h w))) \<le> applications h w + 1"
    and "\<not> list_ex (names H n) ms \<Longrightarrow>
         applications h (moves H ms (snd (registerOnce n h w))) = applications h w"
    by simp_all
qed

section \<open>Handlers queued during a dispatch\<close>

lemma queues_refl: "queues n [] w w"
  by (simp add: queues_def)

lemma queues_trans: "queues n gs w w1 \<Longrightarrow> queues n hs w1 w2 \<Longrightarrow> queues n (gs @ hs) w w2"
  unfolding queues_def by (intro conjI allI impI) (auto simp: Un_assoc)

lemma queues_kept: "kept w w1 \<Longrightarrow> queues n [] w w1"
  by (simp add: queues_def kept_def registered_cong [of w1 w])

lemma queues_enrolOnce: "queues n [g] w (enrolOnce n g w)"
proof (cases "oMessagesOnce w n")
  case None
  then show ?thesis
    by (auto simp: queues_def enrolOnce_def registered_def)
next
  case (Some q)
  then show ?thesis
    by (auto simp: queues_def enrolOnce_def registered_def live_append live_set indexOf_None)
qed

lemma exec_deferring:
  assumes "deferring n c" and "Object_prototype n = None"
  shows "fst (exec H c w) = None \<and> queues n (queued [c]) w (snd (exec H c w)) \<and>
         calls (snd (exec H c w)) = calls w"
proof (cases "quiet c")
  case True
  then have "queued [c] = []" by (cases c) simp_all
  with exec_quiet [OF True, of H w] show ?thesis by (simp add: queues_kept)
next
  case False
  with assms obtain g where c: "c = RegisterOnce n g" by (cases c) auto
  with assms(2) show ?thesis
    by (simp add: registerOnce_enrolOnce queues_enrolOnce enrolOnce_fields)
qed

lemma queued_append: "queued (cs @ ds) = queued cs @ queued ds"
  by (induction cs rule: queued.induct) simp_all

lemma run_deferring:
  "Object_prototype n = None \<Longrightarrow> list_all (deferring n) cs \<Longrightarrow>
   fst (run H cs w) = None \<and> queues n (queued cs) w (snd (run H cs w)) \<and>
   calls (snd (run H cs w)) = calls w"
proof (induction cs arbitrary: w)
  case Nil
  then show ?case by (simp add: queues_refl)
next
  case (Cons c cs)
  obtain e w1 where ex: "exec H c w = (e, w1)" by (cases "exec H c w")
  from Cons.prems have d: "deferring n c" and ds: "list_all (deferring n) cs" by simp_all
  from exec_deferring [OF d Cons.prems(1), of H w] ex have e: "e = None" and q: "queues n (queued [c]) w w1"
    and c: "calls w1 = calls w" by simp_all
  from Cons.IH [OF Cons.prems(1) ds, of w1] have "fst (run H cs w1) = None"
    and "queues n (queued cs) w1 (snd (run H cs w1))" and "calls (snd (run H cs w1)) = calls w1"
    by simp_all
  with queues_trans [OF q] e c ex show ?case
    using queued_append [of "[c]" cs] by simp
qed

lemma code_syncs: "syncs w1 = syncs w \<Longrightarrow> code H w1 a g = code H w a g"
  by (cases g) (simp_all add: code_def)

lemma defers_syncs: "syncs w1 = syncs w \<Longrightarrow> defers H w1 n a g = defers H w n a g"
  by (cases g) (simp_all add: defers_def code_def)

lemma queues_after_kept: "kept w w1 \<Longrightarrow> queues n gs w1 w2 \<Longrightarrow> queues n gs w w2"
  using queues_trans [OF queues_kept, of w w1 n gs w2] by simp

lemma apply_handler_defers:
  assumes "defers H w n a g" and "Object_prototype n = None"
  shows "fst (apply_handler H g a w) = None \<and>
         queues n (queued (code H w a g)) w (snd (apply_handler H g a w)) \<and>
         calls (snd (apply_handler H g a w)) = calls w @ [(g, a)]"
proof -
  let ?w1 = "w\<lparr>calls := calls w @ [(g, a)]\<rparr>"
  have k1: "kept w ?w1" by (simp add: kept_def)
  show ?thesis
  proof (cases g)
    case OnPing
    have "kept w (onPing H ?w1)" by (simp add: kept_def onPing_def post_def postMessage_def)
    with OnPing show ?thesis
      by (simp add: apply_handler_def code_def queues_kept)
        (simp add: onPing_def post_def postMessage_def)
  next
    case (OnPong s)
    with assms obtain sy where s: "syncs w s = Some sy"
      and d: "list_all (deferring n) (body H (fnCallback sy) [])"
      by (auto simp: defers_def code_def split: option.splits)
    let ?w2 = "clearTimeout (iSync sy) ?w1"
    let ?w3 = "?w2\<lparr>fired := fired ?w2 @ [s]\<rparr>"
    have k3: "kept w ?w3" "calls ?w3 = calls w @ [(g, a)]"
      by (simp_all add: kept_def clearTimeout_def split: option.splits)
    from run_deferring [OF assms(2) d, of H ?w3] k3 OnPong s show ?thesis
      by (simp add: apply_handler_def onPong_def Let_def code_def queues_after_kept [OF k3(1)])
  next
    case (User k)
    with assms have d: "list_all (deferring n) (body H k a)" by (simp add: defers_def code_def)
    from run_deferring [OF assms(2) d, of H ?w1] User show ?thesis
      by (simp add: apply_handler_def code_def queues_after_kept [OF k1])
  qed
qed

lemma for_in_defers:
  assumes "Object_prototype n = None" and "l < nextRef w" and "oMessagesOnce w n \<noteq> Some l"
    and "\<forall>g \<in> set (picks (arrays w l) ks). defers H w n a g"
  shows "fst (for_in H l ks a w) = None \<and>
         queues n (concat (map (\<lambda>g. queued (code H w a g)) (picks (arrays w l) ks))) w
           (snd (for_in H l ks a w)) \<and>
         calls (snd (for_in H l ks a w)) = calls w @ map (\<lambda>g. (g, a)) (picks (arrays w l) ks)"
  using assms
proof (induction ks arbitrary: w)
  case Nil
  then show ?case by (simp add: queues_refl)
next
  case (Cons k ks)
  show ?case
  proof (cases "at (arrays w l) k")
    case None
    with Cons show ?thesis by simp
  next
    case (Some g)
    obtain e w1 where ap: "apply_handler H g a w = (e, w1)" by (cases "apply_handler H g a w")
    from Cons.prems(4) Some have dg: "defers H w n a g"
      and rest: "\<forall>g \<in> set (picks (arrays w l) ks). defers H w n a g" by simp_all
    from apply_handler_defers [OF dg Cons.prems(1)] ap
    have e: "e = None" and q: "queues n (queued (code H w a g)) w w1"
      and c: "calls w1 = calls w @ [(g, a)]" by simp_all
    from q Cons.prems(2,3) have l1: "l < nextRef w1" "oMessagesOnce w1 n \<noteq> Some l"
      and ar: "arrays w1 l = arrays w l" and sy: "syncs w1 = syncs w"
      by (auto simp: queues_def)
    from rest ar have "\<forall>g \<in> set (picks (arrays w1 l) ks). defers H w1 n a g"
      by (simp add: defers_syncs [OF sy])
    from Cons.IH [OF Cons.prems(1) l1 this] ar
    have "fst (for_in H l ks a w1) = None"
      and "queues n (concat (map (\<lambda>g. queued (code H w a g)) (picks (arrays w l) ks))) w1
           (snd (for_in H l ks a w1))"
      and "calls (snd (for_in H l ks a w1)) = calls w1 @ map (\<lambda>g. (g, a)) (picks (arrays w l) ks)"
      by (simp_all add: code_syncs [OF sy])
    with queues_trans [OF q] Some ap e c show ?thesis by simp
  qed
qed

lemma persistent_phase_inert:
  assumes "\<forall>g \<in> set (registered (oMessages w) w (key_of xs)). inert H w (tl xs) g"
  shows "fst (persistent_phase H xs w) = None \<and> kept w (snd (persistent_phase H xs w)) \<and>
         calls (snd (persistent_phase H xs w)) =
           calls w @ map (\<lambda>g. (g, tl xs)) (registered (oMessages w) w (key_of xs))"
proof -
  let ?a = "announce xs w"
  have ka: "kept w ?a" "calls ?a = calls w"
    by (simp_all add: kept_def announce_def call_log_def Let_def)
  show ?thesis
  proof (cases "oMessages w (key_of xs)")
    case None
    with ka show ?thesis by (simp add: persistent_phase_def registered_def)
  next
    case (Some l)
    with assms ka have "\<forall>g \<in> set (picks (arrays ?a l) (own_keys (arrays ?a l))). inert H ?a (tl xs) g"
      by (simp add: registered_def picks_own_keys inert_kept [OF ka(1)])
    from for_in_inert [OF this] Some ka show ?thesis
      by (simp add: persistent_phase_def registered_def picks_own_keys) (auto intro: kept_trans)
  qed
qed

lemma once_snapshot:
  assumes "well_formed w"
    and "list_all (inert H w a) (registered (oMessages w) w n)"
    and "list_all (defers H w n a) (registered (oMessagesOnce w) w n)"
  shows "fst (recv H (JStr n # a) w) = None"
    and "calls (snd (recv H (JStr n # a) w)) =
           calls w @ map (\<lambda>g. (g, a)) (registered (oMessages w) w n @ registered (oMessagesOnce w) w n)"
    and "set (registered (oMessagesOnce (snd (recv H (JStr n # a) w))) (snd (recv H (JStr n # a) w)) n) =
           set (concat (map (\<lambda>g. queued (code H w a g)) (registered (oMessagesOnce w) w n)))"
    and "registered (oMessages (snd (recv H (JStr n # a) w))) (snd (recv H (JStr n # a) w)) n =
           registered (oMessages w) w n"
proof -
  let ?xs = "JStr n # a"
  let ?w2 = "snd (persistent_phase H ?xs w)"
  from assms(2) have "\<forall>g \<in> set (registered (oMessages w) w (key_of ?xs)). inert H w (tl ?xs) g"
    by (simp add: list_all_iff)
  from persistent_phase_inert [OF this]
  have p: "fst (persistent_phase H ?xs w) = None" and k: "kept w ?w2"
    and c: "calls ?w2 = calls w @ map (\<lambda>g. (g, a)) (registered (oMessages w) w n)"
    by simp_all
  from p have r: "recv H ?xs w = once_phase H ?xs ?w2"
    by (cases "persistent_phase H ?xs w") (simp add: recv_phases)
  from k have f: "oMessages ?w2 = oMessages w" "oMessagesOnce ?w2 = oMessagesOnce w"
    "arrays ?w2 = arrays w" "syncs ?w2 = syncs w" "nextRef ?w2 = nextRef w"
    by (simp_all add: kept_def)
  have "fst (recv H ?xs w) = None \<and>
    calls (snd (recv H ?xs w)) =
           calls w @ map (\<lambda>g. (g, a)) (registered (oMessages w) w n @ registered (oMessagesOnce w) w n) \<and>
    set (registered (oMessagesOnce (snd (recv H ?xs w))) (snd (recv H ?xs w)) n) =
           set (concat (map (\<lambda>g. queued (code H w a g)) (registered (oMessagesOnce w) w n))) \<and>
    registered (oMessages (snd (recv H ?xs w))) (snd (recv H ?xs w)) n = registered (oMessages w) w n"
  proof (cases "oMessagesOnce w n")
    case None
    then have "registered (oMessagesOnce w) w n = []" by (simp add: registered_def)
    moreover from None f have "once_phase H ?xs ?w2 = (None, ?w2)" by (simp add: once_phase_def)
    ultimately show ?thesis
      using f c by (simp add: r registered_cong [of ?w2 w])
  next
    case (Some l)
    let ?w3 = "?w2\<lparr>oMessagesOnce := (oMessagesOnce ?w2)(n := None)\<rparr>"
    from Some f have o: "once_phase H ?xs ?w2 = for_in H l (own_keys (arrays w l)) a ?w3"
      by (simp add: once_phase_def)
    from assms(1) Some f have l3: "l < nextRef ?w3" "oMessagesOnce ?w3 n \<noteq> Some l"
      by (auto simp: well_formed_def)
    from assms(1) Some have np: "Object_prototype n = None"
      by (auto simp: well_formed_def)
    have a3: "arrays ?w3 = arrays w" "syncs ?w3 = syncs w" "oMessages ?w3 = oMessages w"
      "calls ?w3 = calls ?w2" "nextRef ?w3 = nextRef w"
      using f by simp_all
    have pk: "picks (arrays ?w3 l) (own_keys (arrays w l)) = registered (oMessagesOnce w) w n"
      using Some by (simp add: a3 picks_own_keys registered_def)
    from assms(3) have "\<forall>g \<in> set (registered (oMessagesOnce w) w n). defers H ?w3 n a g"
      unfolding defers_syncs [OF a3(2)] by (simp add: list_all_iff)
    then have "\<forall>g \<in> set (picks (arrays ?w3 l) (own_keys (arrays w l))). defers H ?w3 n a g"
      by (simp only: pk)
    from for_in_defers [OF np l3 this] pk
    have e: "fst (for_in H l (own_keys (arrays w l)) a ?w3) = None"
      and q: "queues n (concat (map (\<lambda>g. queued (code H w a g)) (registered (oMessagesOnce w) w n))) ?w3
           (snd (for_in H l (own_keys (arrays w l)) a ?w3))"
      and cc: "calls (snd (for_in H l (own_keys (arrays w l)) a ?w3)) =
           calls ?w3 @ map (\<lambda>g. (g, a)) (registered (oMessagesOnce w) w n)"
      by (simp_all add: code_syncs [OF a3(2)])
    let ?w4 = "snd (for_in H l (own_keys (arrays w l)) a ?w3)"
    have "registered (oMessagesOnce ?w3) ?w3 n = []" by (simp add: registered_def)
    with q have s: "set (registered (oMessagesOnce ?w4) ?w4 n) =
        set (concat (map (\<lambda>g. queued (code H w a g)) (registered (oMessagesOnce w) w n)))"
      by (simp add: queues_def)
    have "registered (oMessages ?w4) ?w4 n = registered (oMessages w) w n"
    proof (cases "oMessages w n")
      case None
      with q a3 show ?thesis by (simp add: queues_def registered_def)
    next
      case (Some rp)
      with assms(1) a3 have "rp < nextRef ?w3 \<and> oMessagesOnce ?w3 n \<noteq> Some rp"
        by (auto simp: well_formed_def)
      with q have "arrays ?w4 rp = arrays ?w3 rp" and "oMessages ?w4 = oMessages ?w3"
        by (auto simp: queues_def)
      with Some a3 show ?thesis by (simp add: registered_def)
    qed
    with e cc s c a3 show ?thesis
      by (simp add: r o)
  qed
  then show "fst (recv H (JStr n # a) w) = None"
    and "calls (snd (recv H (JStr n # a) w)) =
           calls w @ map (\<lambda>g. (g, a)) (registered (oMessages w) w n @ registered (oMessagesOnce w) w n)"
    and "set (registered (oMessagesOnce (snd (recv H (JStr n # a) w))) (snd (recv H (JStr n # a) w)) n) =
           set (concat (map (\<lambda>g. queued (code H w a g)) (registered (oMessagesOnce w) w n)))"
    and "registered (oMessages (snd (recv H (JStr n # a) w))) (snd (recv H (JStr n # a) w)) n =
           registered (oMessages w) w n"
    by simp_all
qed

lemma well_formed_cMessagePool: "well_formed cMessagePool"
  by (auto simp: well_formed_def cMessagePool_enrol enrol_def blank_def Object_prototype_def
      evPing_def split: if_splits)

lemma cMessagePool_arrays: "Some (User k) \<notin> set (arrays cMessagePool p)"
  by (simp add: cMessagePool_enrol enrol_def blank_def)

lemma awaiting_fields:
  "oMessages awaiting = [evPing \<mapsto> 0]" "oMessagesOnce awaiting = [''greet'' \<mapsto> Suc 0]"
  "arrays awaiting (Suc 0) = [Some (User 1)]" "nextRef awaiting = 2" "calls awaiting = []"
  by (simp_all add: awaiting_enrol enrolOnce_def cMessagePool_enrol enrol_def blank_def)

lemma well_formed_awaiting: "well_formed awaiting"
  by (auto simp: well_formed_def awaiting_fields evPing_def Object_prototype_def split: if_splits)

text \<open>
  C3. A handler \<open>h\<close> registered with \<open>registerOnce(n, h)\<close>, in a well-formed state whose
  arrays do not hold it yet, is applied at most once whatever the pool does afterwards, by
  calls of the caller that do not register \<open>h\<close> again, message events and timer expiries,
  and not at all when no message names \<open>n\<close> (nor when the call threw and stored nothing,
  as it does for a name that \<open>Object.prototype\<close> defines). In a dispatch of \<open>n\<close> the once-array is taken out
  of the table before its handlers run: the handlers applied are the persistent ones and
  those the once-array held when the dispatch began, each once and in order, and a handler
  one of them registers with \<open>registerOnce\<close> for \<open>n\<close> is not applied in this dispatch but
  is in the table for the next (for inert persistent handlers and deferring once-handlers).
\<close>

theorem once_handler:
  "(never_registers H h \<and> list_all (avoiding h) ms \<and> well_formed w \<and>
    (\<forall>p. Some h \<notin> set (arrays w p)) \<longrightarrow>
      applications h (moves H ms (snd (registerOnce n h w))) \<le> applications h w + 1 \<and>
      (\<not> list_ex (names H n) ms \<longrightarrow>
         applications h (moves H ms (snd (registerOnce n h w))) = applications h w)) \<and>
   (well_formed v \<and> list_all (inert H v a) (registered (oMessages v) v n) \<and>
    list_all (defers H v n a) (registered (oMessagesOnce v) v n) \<longrightarrow>
      fst (recv H (JStr n # a) v) = None \<and>
      calls (snd (recv H (JStr n # a) v)) =
        calls v @ map (\<lambda>g. (g, a)) (registered (oMessages v) v n @ registered (oMessagesOnce v) v n) \<and>
      set (registered (oMessagesOnce (snd (recv H (JStr n # a) v))) (snd (recv H (JStr n # a) v)) n) =
        set (concat (map (\<lambda>g. queued (code H v a g)) (registered (oMessagesOnce v) v n))) \<and>
      registered (oMessages (snd (recv H (JStr n # a) v))) (snd (recv H (JStr n # a) v)) n =
        registered (oMessages v) v n)"
  using applied_at_most_once [of H h ms w n] once_snapshot [of v H a n]
  by blast

theorem once_handler_witness:
  "never_registers queueing (User 1) \<and>
   list_all (avoiding (User 1))
     [Call (Ready (Some True)),
      Message \<lparr>data = wire [JStr ''greet'', JStr ''world''], source = Some (Win 1)\<rparr>,
      Message \<lparr>data = wire [JStr ''greet'', JStr ''world''], source = Some (Win 1)\<rparr>] \<and>
   well_formed cMessagePool \<and> (\<forall>p. Some (User 1) \<notin> set (arrays cMessagePool p)) \<and>
   applications (User 1)
     (moves queueing
        [Call (Ready (Some True)),
         Message \<lparr>data = wire [JStr ''greet'', JStr ''world''], source = Some (Win 1)\<rparr>,
         Message \<lparr>data = wire [JStr ''greet'', JStr ''world''], source = Some (Win 1)\<rparr>]
        (snd (registerOnce ''greet'' (User 1) cMessagePool))) \<le> 1 \<and>
   \<not> list_ex (names queueing ''greet'')
     [Call (Ready (Some True)), Message \<lparr>data = wire [JStr evPing], source = Some (Win 1)\<rparr>] \<and>
   applications (User 1)
     (moves queueing
        [Call (Ready (Some True)), Message \<lparr>data = wire [JStr evPing], source = Some (Win 1)\<rparr>]
        (snd (registerOnce ''greet'' (User 1) cMessagePool))) = 0 \<and>
   well_formed awaiting \<and>
   list_all (inert queueing awaiting [JStr ''world'']) (registered (oMessages awaiting) awaiting ''greet'') \<and>
   list_all (defers queueing awaiting ''greet'' [JStr ''world''])
     (registered (oMessagesOnce awaiting) awaiting ''greet'') \<and>
   calls (snd (recv queueing [JStr ''greet'', JStr ''world''] awaiting)) = [(User 1, [JStr ''world''])] \<and>
   set (registered (oMessagesOnce (snd (recv queueing [JStr ''greet'', JStr ''world''] awaiting)))
     (snd (recv queueing [JStr ''greet'', JStr ''world''] awaiting)) ''greet'') = {User 2}"
proof -
  let ?g = "Message \<lparr>data = wire [JStr ''greet'', JStr ''world''], source = Some (Win 1)\<rparr>"
  let ?p = "Message \<lparr>data = wire [JStr evPing], source = Some (Win 1)\<rparr>"
  have nr: "never_registers queueing (User 1)"
    by (simp add: never_registers_def queueing_def)
  have av: "list_all (avoiding (User 1)) [Call (Ready (Some True)), ?g, ?g]"
    "list_all (avoiding (User 1)) [Call (Ready (Some True)), ?p]"
    by simp_all
  have fr: "\<forall>p. Some (User 1) \<notin> set (arrays cMessagePool p)"
    by (simp add: cMessagePool_arrays)
  have nn: "\<not> list_ex (names queueing ''greet'') [Call (Ready (Some True)), ?p]"
    by (simp add: queueing_def parse_samples_ping) (simp add: evPing_def)
  have c0: "applications (User 1) cMessagePool = 0"
    by (simp add: applications_def cMessagePool_enrol enrol_def blank_def)
  note A1 = once_handler [where H = queueing and h = "User 1" and w = cMessagePool and n = "''greet''"
      and ms = "[Call (Ready (Some True)), ?g, ?g]", THEN conjunct1]
  note A2 = once_handler [where H = queueing and h = "User 1" and w = cMessagePool and n = "''greet''"
      and ms = "[Call (Ready (Some True)), ?p]", THEN conjunct1]
  from A1 nr av(1) well_formed_cMessagePool fr c0
  have r1: "applications (User 1) (moves queueing [Call (Ready (Some True)), ?g, ?g]
      (snd (registerOnce ''greet'' (User 1) cMessagePool))) \<le> 1"
    by simp
  from A2 nr av(2) well_formed_cMessagePool fr nn c0
  have r2: "applications (User 1) (moves queueing [Call (Ready (Some True)), ?p]
      (snd (registerOnce ''greet'' (User 1) cMessagePool))) = 0"
    by simp
  have P: "registered (oMessages awaiting) awaiting ''greet'' = []"
    and O: "registered (oMessagesOnce awaiting) awaiting ''greet'' = [User 1]"
    by (simp_all add: registered_def awaiting_fields evPing_def)
  have i: "list_all (inert queueing awaiting [JStr ''world'']) (registered (oMessages awaiting) awaiting ''greet'')"
    by (simp add: P)
  have d: "list_all (defers queueing awaiting ''greet'' [JStr ''world''])
     (registered (oMessagesOnce awaiting) awaiting ''greet'')"
    by (simp add: O defers_def code_def queueing_def)
  note B = once_handler [where H = queueing and v = awaiting and n = "''greet''" and a = "[JStr ''world'']",
      THEN conjunct2]
  from B well_formed_awaiting i d
  have "calls (snd (recv queueing [JStr ''greet'', JStr ''world''] awaiting)) =
        calls awaiting @ map (\<lambda>g. (g, [JStr ''world'']))
          (registered (oMessages awaiting) awaiting ''greet'' @ registered (oMessagesOnce awaiting) awaiting ''greet'')"
    and "set (registered (oMessagesOnce (snd (recv queueing [JStr ''greet'', JStr ''world''] awaiting)))
        (snd (recv queueing [JStr ''greet'', JStr ''world''] awaiting)) ''greet'') =
        set (concat (map (\<lambda>g. queued (code queueing awaiting [JStr ''world''] g))
          (registered (oMessagesOnce awaiting) awaiting ''greet'')))"
    by blast+
  then have r3: "calls (snd (recv queueing [JStr ''greet'', JStr ''world''] awaiting)) = [(User 1, [JStr ''world''])]"
    and r4: "set (registered (oMessagesOnce (snd (recv queueing [JStr ''greet'', JStr ''world''] awaiting)))
        (snd (recv queueing [JStr ''greet'', JStr ''world''] awaiting)) ''greet'') = {User 2}"
    unfolding P O by (simp_all add: awaiting_fields(5) code_def queueing_def)
  from nr av(1) well_formed_cMessagePool fr r1 nn r2 well_formed_awaiting i d r3 r4
  show ?thesis by blast
qed

section \<open>The states the pool can reach\<close>

text \<open>
  Every state reached from the construction of the pool is tidy: what the statements
  above assume of the tables (arrays without duplicates, no array shared by the two
  tables, references below the next free one, no entry under a name that
  \<open>Object.prototype\<close> defines) holds there. It is seeded too: \<open>evPing\<close> and \<open>evPong\<close>
  stay on the exclusion list, so a skipped or dropped ping or pong is never logged.
\<close>

lemma distinct_live_update: "distinct (live xs) \<Longrightarrow> distinct (live (xs[i := None]))"
proof (induction xs arbitrary: i rule: live.induct)
  case 1
  then show ?case by simp
next
  case (2 xs)
  then show ?case by (cases i) simp_all
next
  case (3 h xs)
  show ?case
  proof (cases i)
    case 0
    with 3 show ?thesis by simp
  next
    case (Suc j)
    have "set (live (xs[j := None])) \<subseteq> set (live xs)"
      by (auto simp: live_set dest: set_update_subset_insert [THEN subsetD])
    with 3 Suc show ?thesis by auto
  qed
qed

lemma distinct_live_snoc:
  "distinct (live xs) \<Longrightarrow> indexOf xs h = None \<Longrightarrow> distinct (live (xs @ [Some h]))"
  by (simp add: live_append indexOf_None live_set)

lemma tidy_kept: "kept w w1 \<Longrightarrow> tidy w \<Longrightarrow> tidy w1"
  by (simp add: tidy_def well_formed_def kept_def)

lemma tidy_enrol: "Object_prototype n = None \<Longrightarrow> tidy w \<Longrightarrow> tidy (enrol n h w)"
  by (auto simp: tidy_def well_formed_def enrol_def distinct_live_snoc less_Suc_eq
      split: option.splits)

lemma tidy_enrolOnce: "Object_prototype n = None \<Longrightarrow> tidy w \<Longrightarrow> tidy (enrolOnce n h w)"
  by (auto simp: tidy_def well_formed_def enrolOnce_def distinct_live_snoc less_Suc_eq
      split: option.splits)

lemma tidy_names:
  "tidy w \<Longrightarrow> oMessages w n = Some r \<Longrightarrow> Object_prototype n = None"
  "tidy w \<Longrightarrow> oMessagesOnce w n = Some r \<Longrightarrow> Object_prototype n = None"
  by (auto simp: tidy_def well_formed_def)

lemma tidy_register: "tidy w \<Longrightarrow> tidy (snd (register n h w))"
proof (cases "Object_prototype n = None")
  case True
  assume "tidy w"
  with True show ?thesis by (simp add: register_enrol tidy_enrol)
next
  case False
  assume t: "tidy w"
  with False have "oMessages w n = None" by (cases "oMessages w n") (auto dest: tidy_names)
  with False t show ?thesis by (simp add: register_throws)
qed

lemma tidy_registerOnce: "tidy w \<Longrightarrow> tidy (snd (registerOnce n h w))"
proof (cases "Object_prototype n = None")
  case True
  assume "tidy w"
  with True show ?thesis by (simp add: registerOnce_enrolOnce tidy_enrolOnce)
next
  case False
  assume t: "tidy w"
  with False have "oMessagesOnce w n = None" by (cases "oMessagesOnce w n") (auto dest: tidy_names)
  with False t show ?thesis by (simp add: registerOnce_throws)
qed

lemma tidy_unregister: "tidy w \<Longrightarrow> tidy (snd (unregister n h w))"
  by (auto simp: tidy_def well_formed_def unregister_def distinct_live_update
      split: option.splits slot.splits)

lemma tidy_fields:
  "oMessages w1 = oMessages w \<Longrightarrow> oMessagesOnce w1 = oMessagesOnce w \<Longrightarrow> arrays w1 = arrays w \<Longrightarrow>
   nextRef w1 = nextRef w \<Longrightarrow> tidy w \<Longrightarrow> tidy w1"
  by (simp add: tidy_def well_formed_def)

lemma tidy_onSync: "tidy w \<Longrightarrow> tidy (snd (onSync H s w))"
proof (cases "syncs w s")
  case None
  assume "tidy w"
  with None show ?thesis by (simp add: onSync_def)
next
  case (Some sy)
  assume n: "tidy w"
  obtain w1 where w1: "send H (sTarget sy) [JStr evPing] w = (None, w1)" "kept w w1"
    by (rule send_result)
  from w1(2) n have "tidy w1" by (rule tidy_kept)
  with Some w1(1) show ?thesis
    by (simp add: onSync_def setTimeout_def tidy_def well_formed_def)
qed

lemma tidy_synchronize: "tidy w \<Longrightarrow> tidy (snd (synchronize H t cb w))"
proof -
  assume n: "tidy w"
  let ?w1 = "w\<lparr>syncs := (syncs w)(nextSync w \<mapsto> \<lparr>sTarget = t, fnCallback = cb, iSync = None\<rparr>),
                 nextSync := Suc (nextSync w)\<rparr>"
  from n have "tidy ?w1" by (simp add: tidy_def well_formed_def)
  then have "tidy (enrolOnce evPong (OnPong (nextSync w)) ?w1)" by (simp add: tidy_enrolOnce)
  then show ?thesis by (simp add: synchronize_enrol Let_def tidy_onSync)
qed

lemma tidy_cancel: "tidy w \<Longrightarrow> tidy (snd (cancel s w))"
proof -
  assume n: "tidy w"
  show ?thesis
  proof (cases "syncs w s")
    case None
    with n show ?thesis by (simp add: cancel_snd)
  next
    case (Some sy)
    show ?thesis
    proof (cases "iSync sy")
      case None
      with Some n show ?thesis by (simp add: cancel_snd)
    next
      case (Some t)
      from n have "tidy (clearTimeout (Some t) w)" by (simp add: tidy_def well_formed_def clearTimeout_def)
      then have "tidy (snd (unregister evPong (Some (OnPong s)) (clearTimeout (Some t) w)))"
        by (rule tidy_unregister)
      then show ?thesis using \<open>syncs w s = Some sy\<close> Some
        by (simp add: cancel_snd Let_def tidy_def well_formed_def)
    qed
  qed
qed

lemma tidy_exec: "tidy w \<Longrightarrow> tidy (snd (exec H c w))"
proof (cases "quiet c")
  case True
  assume "tidy w"
  with exec_quiet [OF True, of H w] show ?thesis by (auto intro: tidy_kept)
next
  case False
  assume "tidy w"
  with False show ?thesis
    by (cases c)
      (simp_all add: tidy_register tidy_registerOnce tidy_unregister
        tidy_synchronize tidy_cancel split: sum.splits)
qed

lemma tidy_run: "tidy w \<Longrightarrow> tidy (snd (run H cs w))"
proof (induction cs arbitrary: w)
  case Nil
  then show ?case by simp
next
  case (Cons c cs)
  from Cons.prems have "tidy (snd (exec H c w))" by (rule tidy_exec)
  with Cons.IH [of "snd (exec H c w)"] show ?case
    by (cases "exec H c w") (auto split: option.splits)
qed

lemma tidy_apply_handler: "tidy w \<Longrightarrow> tidy (snd (apply_handler H h a w))"
proof -
  assume n: "tidy w"
  then have n1: "tidy (w\<lparr>calls := calls w @ [(h, a)]\<rparr>)" by (simp add: tidy_def well_formed_def)
  show ?thesis
  proof (cases h)
    case OnPing
    with n1 show ?thesis
      by (simp add: apply_handler_def onPing_def post_def postMessage_def tidy_def well_formed_def)
  next
    case (OnPong s)
    show ?thesis
    proof (cases "syncs w s")
      case None
      with OnPong n1 show ?thesis by (simp add: apply_handler_def onPong_def)
    next
      case (Some sy)
      let ?w1 = "clearTimeout (iSync sy) (w\<lparr>calls := calls w @ [(h, a)]\<rparr>)"
      from n have "tidy (?w1\<lparr>fired := fired ?w1 @ [s]\<rparr>)"
        by (simp add: tidy_def well_formed_def clearTimeout_def split: option.splits)
      from tidy_run [OF this] OnPong Some show ?thesis
        by (simp add: apply_handler_def onPong_def Let_def)
    qed
  next
    case (User k)
    with tidy_run [OF n1] show ?thesis by (simp add: apply_handler_def)
  qed
qed

lemma tidy_for_in: "tidy w \<Longrightarrow> tidy (snd (for_in H r ks a w))"
proof (induction ks arbitrary: w)
  case Nil
  then show ?case by simp
next
  case (Cons i ks)
  show ?case
  proof (cases "at (arrays w r) i")
    case None
    with Cons show ?thesis by simp
  next
    case (Some h)
    from Cons.prems have "tidy (snd (apply_handler H h a w))" by (rule tidy_apply_handler)
    with Cons.IH [of "snd (apply_handler H h a w)"] Some show ?thesis
      by (cases "apply_handler H h a w") (auto split: option.splits)
  qed
qed

lemma tidy_recv: "tidy w \<Longrightarrow> tidy (snd (recv H xs w))"
proof -
  assume n: "tidy w"
  have "kept w (announce xs w)"
    by (simp add: kept_def announce_def call_log_def Let_def)
  from this n have "tidy (announce xs w)" by (rule tidy_kept)
  then have p: "tidy (snd (persistent_phase H xs w))"
    by (cases "oMessages (announce xs w) (key_of xs)") (simp_all add: persistent_phase_def tidy_for_in)
  have "tidy (snd (once_phase H xs (snd (persistent_phase H xs w))))"
  proof (cases "oMessagesOnce (snd (persistent_phase H xs w)) (key_of xs)")
    case None
    with p show ?thesis by (simp add: once_phase_def)
  next
    case (Some l)
    let ?w2 = "snd (persistent_phase H xs w)"
    from p have "tidy (?w2\<lparr>oMessagesOnce := (oMessagesOnce ?w2)(key_of xs := None)\<rparr>)"
      by (auto simp: tidy_def well_formed_def)
    with Some show ?thesis by (simp add: once_phase_def tidy_for_in)
  qed
  with p show ?thesis by (simp add: snd_recv_phases)
qed

lemma tidy_messageLog: "tidy w \<Longrightarrow> tidy (snd (messageLog v p w))"
  by (rule tidy_fields) (simp_all add: messageLog_heap)

lemma tidy_onMessage: "tidy w \<Longrightarrow> tidy (snd (onMessage H ev w))"
  by (auto simp: onMessage_def tidy_recv tidy_messageLog split: option.splits json.splits)

lemma tidy_expire: "tidy w \<Longrightarrow> tidy (snd (expire H t w))"
proof -
  assume n: "tidy w"
  then have "\<And>d. tidy (w\<lparr>timers := filter (\<lambda>e. fst e \<noteq> t) (timers w), now := d\<rparr>)"
    by (simp add: tidy_def well_formed_def)
  then show ?thesis using n
    by (auto simp: expire_def tidy_onSync split: list.splits)
qed

lemma tidy_step: "tidy w \<Longrightarrow> tidy (snd (step H m w))"
  by (cases m) (simp_all add: tidy_exec tidy_onMessage tidy_expire)

lemma tidy_moves: "tidy w \<Longrightarrow> tidy (moves H ms w)"
  by (induction ms arbitrary: w) (simp_all add: tidy_step)

lemma tidy_cMessagePool: "tidy cMessagePool"
  by (simp add: tidy_def well_formed_cMessagePool) (simp add: cMessagePool_enrol enrol_def blank_def)


lemma tidy_registered: "tidy w \<Longrightarrow> distinct (registered t w n)"
  by (cases "t n") (simp_all add: registered_def tidy_def)

lemma tidy_tables: "tidy w \<Longrightarrow> oMessages w n = Some r \<Longrightarrow> oMessagesOnce w m \<noteq> Some r"
  by (simp add: tidy_def well_formed_def)

lemma reachable_tidy: "tidy (moves H ms cMessagePool)"
  by (rule tidy_moves) (rule tidy_cMessagePool)

lemma reachable_names:
  "oMessages (moves H ms cMessagePool) n = Some r \<Longrightarrow> Object_prototype n = None"
  "oMessagesOnce (moves H ms cMessagePool) n = Some r \<Longrightarrow> Object_prototype n = None"
  using reachable_tidy [of H ms] by (auto dest: tidy_names)

lemma push_new_grows: "set ex \<subseteq> set (push_new ex as)"
proof (induction as arbitrary: ex)
  case Nil
  then show ?case by simp
next
  case (Cons a as)
  have "set ex \<subseteq> set (if a \<in> set ex then ex else ex @ [a])" by auto
  also have "\<dots> \<subseteq> set (push_new (if a \<in> set ex then ex else ex @ [a]) as)"
    by (rule Cons.IH)
  finally show ?case by simp
qed

lemma seeded_fields: "aExcludeLog w1 = aExcludeLog w \<Longrightarrow> seeded w \<Longrightarrow> seeded w1"
  by (simp add: seeded_def)

lemma seeded_excludeLog: "seeded w \<Longrightarrow> seeded (excludeLog b ns w)"
  using push_new_grows [of "aExcludeLog w" ns] push_new_grows [of defaultExcludeList ns]
  by (auto simp: seeded_def excludeLog_def)

lemma aExcludeLog_register [simp]:
  "aExcludeLog (snd (register n h w)) = aExcludeLog w"
  "aExcludeLog (snd (registerOnce n h w)) = aExcludeLog w"
  using register_result [of n h w] registerOnce_result [of n h w]
  by (auto simp: enrol_def enrolOnce_def split: option.splits)

lemma aExcludeLog_unregister [simp]: "aExcludeLog (snd (unregister n h w)) = aExcludeLog w"
  by (auto simp: unregister_def split: option.splits slot.splits)

lemma aExcludeLog_messageLog [simp]: "aExcludeLog (snd (messageLog v p w)) = aExcludeLog w"
  by (auto simp: messageLog_def call_log_def split: option.splits json.splits)

lemma aExcludeLog_send [simp]: "aExcludeLog (snd (send H t xs w)) = aExcludeLog w"
  by (simp add: send_def postMessage_def split: option.splits)

lemma aExcludeLog_onSync [simp]: "aExcludeLog (snd (onSync H s w)) = aExcludeLog w"
proof (cases "syncs w s")
  case None
  then show ?thesis by (simp add: onSync_def)
next
  case (Some sy)
  obtain e w1 where w1: "send H (sTarget sy) [JStr evPing] w = (e, w1)"
    by (cases "send H (sTarget sy) [JStr evPing] w")
  with aExcludeLog_send [of H "sTarget sy" "[JStr evPing]" w] have "aExcludeLog w1 = aExcludeLog w"
    by simp
  with Some w1 show ?thesis
    by (cases e) (simp_all add: onSync_def setTimeout_def)
qed

lemma aExcludeLog_synchronize [simp]:
  "aExcludeLog (snd (synchronize H t cb w)) = aExcludeLog w"
  by (simp add: synchronize_enrol Let_def)
    (simp add: enrolOnce_def split: option.splits)

lemma aExcludeLog_cancel [simp]: "aExcludeLog (snd (cancel s w)) = aExcludeLog w"
  by (simp add: cancel_snd Let_def clearTimeout_def split: option.splits)

lemma seeded_exec: "seeded w \<Longrightarrow> seeded (snd (exec H c w))"
  by (cases c)
    (auto simp: seeded_excludeLog init_def post_def postMessage_def ready_def log_def call_log_def
      intro: seeded_fields split: sum.splits)

lemma seeded_run: "seeded w \<Longrightarrow> seeded (snd (run H cs w))"
proof (induction cs arbitrary: w)
  case Nil
  then show ?case by simp
next
  case (Cons c cs)
  from Cons.prems have "seeded (snd (exec H c w))" by (rule seeded_exec)
  with Cons.IH [of "snd (exec H c w)"] show ?case
    by (cases "exec H c w") (auto split: option.splits)
qed

lemma seeded_apply_handler: "seeded w \<Longrightarrow> seeded (snd (apply_handler H h a w))"
proof -
  assume n: "seeded w"
  then have n1: "seeded (w\<lparr>calls := calls w @ [(h, a)]\<rparr>)" by (simp add: seeded_def)
  show ?thesis
  proof (cases h)
    case OnPing
    with n1 show ?thesis
      by (simp add: apply_handler_def onPing_def post_def postMessage_def seeded_def)
  next
    case (OnPong s)
    show ?thesis
    proof (cases "syncs w s")
      case None
      with OnPong n1 show ?thesis by (simp add: apply_handler_def onPong_def)
    next
      case (Some sy)
      let ?w1 = "clearTimeout (iSync sy) (w\<lparr>calls := calls w @ [(h, a)]\<rparr>)"
      from n have "seeded (?w1\<lparr>fired := fired ?w1 @ [s]\<rparr>)"
        by (simp add: seeded_def clearTimeout_def split: option.splits)
      from seeded_run [OF this] OnPong Some show ?thesis
        by (simp add: apply_handler_def onPong_def Let_def)
    qed
  next
    case (User k)
    with seeded_run [OF n1] show ?thesis by (simp add: apply_handler_def)
  qed
qed

lemma seeded_for_in: "seeded w \<Longrightarrow> seeded (snd (for_in H r ks a w))"
proof (induction ks arbitrary: w)
  case Nil
  then show ?case by simp
next
  case (Cons i ks)
  show ?case
  proof (cases "at (arrays w r) i")
    case None
    with Cons show ?thesis by simp
  next
    case (Some h)
    from Cons.prems have "seeded (snd (apply_handler H h a w))" by (rule seeded_apply_handler)
    with Cons.IH [of "snd (apply_handler H h a w)"] Some show ?thesis
      by (cases "apply_handler H h a w") (auto split: option.splits)
  qed
qed

lemma seeded_recv: "seeded w \<Longrightarrow> seeded (snd (recv H xs w))"
proof -
  assume n: "seeded w"
  then have "seeded (announce xs w)"
    by (simp add: seeded_def announce_def call_log_def Let_def)
  then have p: "seeded (snd (persistent_phase H xs w))"
    by (cases "oMessages (announce xs w) (key_of xs)") (simp_all add: persistent_phase_def seeded_for_in)
  have "seeded (snd (once_phase H xs (snd (persistent_phase H xs w))))"
  proof (cases "oMessagesOnce (snd (persistent_phase H xs w)) (key_of xs)")
    case None
    with p show ?thesis by (simp add: once_phase_def)
  next
    case (Some l)
    let ?w2 = "snd (persistent_phase H xs w)"
    from p have "seeded (?w2\<lparr>oMessagesOnce := (oMessagesOnce ?w2)(key_of xs := None)\<rparr>)"
      by (simp add: seeded_def)
    with Some show ?thesis by (simp add: once_phase_def seeded_for_in)
  qed
  with p show ?thesis by (simp add: snd_recv_phases)
qed

lemma seeded_onMessage: "seeded w \<Longrightarrow> seeded (snd (onMessage H ev w))"
  by (auto simp: onMessage_def seeded_recv intro: seeded_fields split: option.splits json.splits)

lemma seeded_expire: "seeded w \<Longrightarrow> seeded (snd (expire H t w))"
  by (auto simp: expire_def intro: seeded_fields split: list.splits)

lemma seeded_step: "seeded w \<Longrightarrow> seeded (snd (step H m w))"
  by (cases m) (simp_all add: seeded_exec seeded_onMessage seeded_expire)

lemma seeded_moves: "seeded w \<Longrightarrow> seeded (moves H ms w)"
  by (induction ms arbitrary: w) (simp_all add: seeded_step)

lemma reachable_seeded:
  "evPing \<in> set (aExcludeLog (moves H ms cMessagePool))"
  "evPong \<in> set (aExcludeLog (moves H ms cMessagePool))"
proof -
  have "seeded cMessagePool"
    by (simp add: seeded_def cMessagePool_enrol enrol_def blank_def)
  from seeded_moves [OF this, of H ms]
  show "evPing \<in> set (aExcludeLog (moves H ms cMessagePool))"
    and "evPong \<in> set (aExcludeLog (moves H ms cMessagePool))"
    by (simp_all add: seeded_def defaultExcludeList_def)
qed

end
